theory Spec2Isabelle
  imports Main
begin

section \<open>Python values\<close>

text \<open>
  A Python \<open>str\<close> is a sequence of Unicode code points, and \<open>len\<close> counts code points.
  A code point is a natural number; \<open>ascii\<close> turns a literal into its code points.
\<close>

type_synonym pystr = "nat list"

definition ascii :: "string \<Rightarrow> pystr" where
  "ascii s = map of_char s"

text \<open>
  The values \<open>response.json()\<close> can return. An object is the list of its items in
  insertion order (the keys of a parsed object are distinct). Numbers are the integers;
  a number with a fraction or an exponent is left out.
\<close>

datatype json =
    JNull
  | JBool bool
  | JInt int
  | JStr pystr
  | JArr "json list"
  | JObj "(pystr \<times> json) list"

datatype error =
    RequestException
  | HTTPError nat
  | JSONDecodeError
  | KeyError pystr
  | TypeError
  | AttributeError
  | UnicodeEncodeError
  | ValueError
  | OSError

text \<open>Truth value testing: \<open>if not content_uri\<close>.\<close>

fun py_truthy :: "json \<Rightarrow> bool" where
  "py_truthy JNull = False"
| "py_truthy (JBool b) = b"
| "py_truthy (JInt i) = (i \<noteq> 0)"
| "py_truthy (JStr s) = (s \<noteq> [])"
| "py_truthy (JArr xs) = (xs \<noteq> [])"
| "py_truthy (JObj kvs) = (kvs \<noteq> [])"

text \<open>\<open>content.get(key)\<close>: only a dict has the method; a missing key gives \<open>None\<close>.\<close>

fun py_get :: "json \<Rightarrow> pystr \<Rightarrow> error + json" where
  "py_get (JObj kvs) k = (case map_of kvs k of None \<Rightarrow> Inr JNull | Some v \<Rightarrow> Inr v)"
| "py_get _ k = Inl AttributeError"

text \<open>\<open>obj[key]\<close> with a string key: a dict raises KeyError on a missing key, every
  other JSON value raises TypeError.\<close>

fun py_subscript :: "json \<Rightarrow> pystr \<Rightarrow> error + json" where
  "py_subscript (JObj kvs) k = (case map_of kvs k of None \<Rightarrow> Inl (KeyError k) | Some v \<Rightarrow> Inr v)"
| "py_subscript _ k = Inl TypeError"

text \<open>\<open>for x in obj\<close>: a list gives its elements, a dict its keys, a string its
  characters (as strings of length one); nothing else is iterable.\<close>

fun py_iter :: "json \<Rightarrow> error + json list" where
  "py_iter (JArr xs) = Inr xs"
| "py_iter (JObj kvs) = Inr (map (\<lambda>kv. JStr (fst kv)) kvs)"
| "py_iter (JStr s) = Inr (map (\<lambda>c. JStr [c]) s)"
| "py_iter _ = Inl TypeError"

section \<open>Serialisation: \<open>json.dumps(event, ensure_ascii=False)\<close>\<close>

fun str_nat :: "nat \<Rightarrow> pystr" where
  "str_nat n = (if n < 10 then [48 + n] else str_nat (n div 10) @ [48 + n mod 10])"

declare str_nat.simps [simp del]

definition str_int :: "int \<Rightarrow> pystr" where
  "str_int i = (if i < 0 then 45 # str_nat (nat (- i)) else str_nat (nat i))"

definition hex_digit :: "nat \<Rightarrow> nat" where
  "hex_digit d = (if d < 10 then 48 + d else 87 + d)"

text \<open>The escapes of the encoder when non-ASCII characters are kept: the quote, the
  backslash and the control characters below U+0020.\<close>

definition escape_char :: "nat \<Rightarrow> pystr" where
  "escape_char c =
     (if c = 34 then [92, 34]
      else if c = 92 then [92, 92]
      else if c = 10 then [92, 110]
      else if c = 13 then [92, 114]
      else if c = 9 then [92, 116]
      else if c = 8 then [92, 98]
      else if c = 12 then [92, 102]
      else if c < 32 then [92, 117, 48, 48, hex_digit (c div 16), hex_digit (c mod 16)]
      else [c])"

definition encode_basestring :: "pystr \<Rightarrow> pystr" where
  "encode_basestring s = 34 # concat (map escape_char s) @ [34]"

fun join :: "pystr \<Rightarrow> pystr list \<Rightarrow> pystr" where
  "join sep [] = []"
| "join sep [x] = x"
| "join sep (x # y # ys) = x @ sep @ join sep (y # ys)"

fun json_dumps :: "json \<Rightarrow> pystr" where
  "json_dumps JNull = ascii ''null''"
| "json_dumps (JBool b) = (if b then ascii ''true'' else ascii ''false'')"
| "json_dumps (JInt i) = str_int i"
| "json_dumps (JStr s) = encode_basestring s"
| "json_dumps (JArr xs) = 91 # join (ascii '', '') (map json_dumps xs) @ [93]"
| "json_dumps (JObj kvs) =
     123 # join (ascii '', '')
             (map (\<lambda>kv. encode_basestring (fst kv) @ ascii '': '' @ json_dumps (snd kv)) kvs)
       @ [125]"

section \<open>Reading a line back: \<open>json.loads\<close>\<close>

text \<open>
  The decoder of the same library, as its documentation and its scanner have it, for the
  values of \<open>json\<close>: white space is skipped around the tokens, a string ends at the
  first quote that is not escaped and may not hold a raw control character, an object
  becomes a dict (a repeated key keeps its place and takes the last value), and what
  follows the value may only be white space. A number with a fraction or an exponent is
  not among the values here, and the decoder gives nothing for it.
\<close>

definition is_ws :: "nat \<Rightarrow> bool" where
  "is_ws c = (c = 32 \<or> c = 9 \<or> c = 10 \<or> c = 13)"

definition skip_ws :: "pystr \<Rightarrow> pystr" where
  "skip_ws s = dropWhile is_ws s"

definition is_digit :: "nat \<Rightarrow> bool" where
  "is_digit c = (48 \<le> c \<and> c \<le> 57)"

text \<open>The four hexadecimal digits of a Unicode escape.\<close>

definition hex_value :: "nat \<Rightarrow> nat option" where
  "hex_value c =
     (if 48 \<le> c \<and> c \<le> 57 then Some (c - 48)
      else if 97 \<le> c \<and> c \<le> 102 then Some (c - 87)
      else if 65 \<le> c \<and> c \<le> 70 then Some (c - 55)
      else None)"

definition decode_uXXXX :: "pystr \<Rightarrow> nat option" where
  "decode_uXXXX s =
     (case s of
        a # b # c # d # _ \<Rightarrow>
          (case hex_value a of None \<Rightarrow> None | Some h1 \<Rightarrow>
          (case hex_value b of None \<Rightarrow> None | Some h2 \<Rightarrow>
          (case hex_value c of None \<Rightarrow> None | Some h3 \<Rightarrow>
          (case hex_value d of None \<Rightarrow> None | Some h4 \<Rightarrow>
             Some (((h1 * 16 + h2) * 16 + h3) * 16 + h4)))))
      | _ \<Rightarrow> None)"

text \<open>The one-letter escapes.\<close>

definition unescape :: "nat \<Rightarrow> nat option" where
  "unescape c =
     (if c = 34 then Some 34
      else if c = 92 then Some 92
      else if c = 47 then Some 47
      else if c = 98 then Some 8
      else if c = 102 then Some 12
      else if c = 110 then Some 10
      else if c = 114 then Some 13
      else if c = 116 then Some 9
      else None)"

definition put :: "nat \<Rightarrow> (pystr \<times> pystr) option \<Rightarrow> (pystr \<times> pystr) option" where
  "put c r = (case r of None \<Rightarrow> None | Some p \<Rightarrow> Some (c # fst p, snd p))"

text \<open>One character of the body of a string, escaped or not, and the text after it.
  A high surrogate escape followed by a low one is one character.\<close>

definition next_char :: "pystr \<Rightarrow> (nat \<times> pystr) option" where
  "next_char s =
     (case s of
        [] \<Rightarrow> None
      | c # s0 \<Rightarrow>
          if c = 92 then
            (case s0 of
               [] \<Rightarrow> None
             | esc # s1 \<Rightarrow>
                 if esc = 117 then
                   (case decode_uXXXX s1 of
                      None \<Rightarrow> None
                    | Some uni \<Rightarrow>
                        if 55296 \<le> uni \<and> uni \<le> 56319 \<and> take 2 (drop 4 s1) = [92, 117] then
                          (case decode_uXXXX (drop 6 s1) of
                             None \<Rightarrow> None
                           | Some uni2 \<Rightarrow>
                               if 56320 \<le> uni2 \<and> uni2 \<le> 57343
                               then Some (65536 + ((uni - 55296) * 1024 + (uni2 - 56320)),
                                          drop 10 s1)
                               else Some (uni, drop 4 s1))
                        else Some (uni, drop 4 s1))
                 else (case unescape esc of None \<Rightarrow> None | Some ch \<Rightarrow> Some (ch, s1)))
          else if c < 32 then None
          else Some (c, s0))"

text \<open>The body of a string up to its closing quote, and the text after the quote.\<close>

function scanstring :: "pystr \<Rightarrow> (pystr \<times> pystr) option" where
  "scanstring s =
     (case s of
        [] \<Rightarrow> None
      | c # r \<Rightarrow>
          if c = 34 then Some ([], r)
          else (case next_char s of
                  None \<Rightarrow> None
                | Some p \<Rightarrow> put (fst p) (scanstring (snd p))))"
  by pat_completeness auto
termination
  by (relation "measure length")
     (auto simp: next_char_def split: list.splits if_splits option.splits)

declare scanstring.simps [simp del]


text \<open>Numbers: an optional minus sign, then \<open>0\<close> or a digit that is not \<open>0\<close> with the
  digits after it.\<close>

definition nat_of_digits :: "pystr \<Rightarrow> nat" where
  "nat_of_digits ds = foldl (\<lambda>a d. a * 10 + (d - 48)) 0 ds"

definition is_float_tail :: "pystr \<Rightarrow> bool" where
  "is_float_tail s =
     (case s of
        c # d # r \<Rightarrow>
          (c = 46 \<and> is_digit d)
          \<or> ((c = 101 \<or> c = 69)
              \<and> (is_digit d
                  \<or> ((d = 43 \<or> d = 45) \<and> (case r of [] \<Rightarrow> False | d2 # _ \<Rightarrow> is_digit d2))))
      | _ \<Rightarrow> False)"

definition scan_int :: "pystr \<Rightarrow> (nat \<times> pystr) option" where
  "scan_int s =
     (case s of
        [] \<Rightarrow> None
      | c # r \<Rightarrow>
          if c = 48 then Some (0, r)
          else if is_digit c
          then Some (nat_of_digits (takeWhile is_digit s), dropWhile is_digit s)
          else None)"

definition scan_number :: "pystr \<Rightarrow> (json \<times> pystr) option" where
  "scan_number s =
     (case s of
        [] \<Rightarrow> None
      | c # r \<Rightarrow>
          (case (if c = 45 then scan_int r else scan_int s) of
             None \<Rightarrow> None
           | Some p \<Rightarrow>
               if is_float_tail (snd p) then None
               else Some (JInt (if c = 45 then - int (fst p) else int (fst p)), snd p)))"

text \<open>\<open>dict(pairs)\<close>.\<close>

definition dict_set :: "(pystr \<times> json) list \<Rightarrow> pystr \<Rightarrow> json \<Rightarrow> (pystr \<times> json) list" where
  "dict_set d k v =
     (if k \<in> set (map fst d) then map (\<lambda>a. if fst a = k then (k, v) else a) d
      else d @ [(k, v)])"

definition py_dict :: "(pystr \<times> json) list \<Rightarrow> (pystr \<times> json) list" where
  "py_dict pairs = foldl (\<lambda>d a. dict_set d (fst a) (snd a)) [] pairs"

text \<open>
  A value, the items of an array after its bracket, and the items of an object after
  the quote of its first key. The three call each other; the number counts the calls
  still allowed, and \<open>json_loads\<close> allows as many as the text has characters.
\<close>

definition value_step ::
  "(pystr \<Rightarrow> (json list \<times> pystr) option) \<Rightarrow> (pystr \<Rightarrow> ((pystr \<times> json) list \<times> pystr) option)
     \<Rightarrow> pystr \<Rightarrow> (json \<times> pystr) option" where
  "value_step array object s =
     (case s of
        [] \<Rightarrow> None
      | c # r \<Rightarrow>
          if c = 34 then
            (case scanstring r of None \<Rightarrow> None | Some p \<Rightarrow> Some (JStr (fst p), snd p))
          else if c = 123 then
            (case skip_ws r of
               [] \<Rightarrow> None
             | d # r1 \<Rightarrow>
                 if d = 125 then Some (JObj [], r1)
                 else if d = 34 then
                   (case object r1 of
                      None \<Rightarrow> None
                    | Some p \<Rightarrow> Some (JObj (py_dict (fst p)), snd p))
                 else None)
          else if c = 91 then
            (case skip_ws r of
               [] \<Rightarrow> None
             | d # r1 \<Rightarrow>
                 if d = 93 then Some (JArr [], r1)
                 else (case array (d # r1) of
                         None \<Rightarrow> None
                       | Some p \<Rightarrow> Some (JArr (fst p), snd p)))
          else if take 4 s = ascii ''null'' then Some (JNull, drop 4 s)
          else if take 4 s = ascii ''true'' then Some (JBool True, drop 4 s)
          else if take 5 s = ascii ''false'' then Some (JBool False, drop 5 s)
          else scan_number s)"

definition array_step ::
  "(pystr \<Rightarrow> (json \<times> pystr) option) \<Rightarrow> (pystr \<Rightarrow> (json list \<times> pystr) option)
     \<Rightarrow> pystr \<Rightarrow> (json list \<times> pystr) option" where
  "array_step val array s =
     (case val s of
        None \<Rightarrow> None
      | Some p \<Rightarrow>
          (case skip_ws (snd p) of
             [] \<Rightarrow> None
           | d # r1 \<Rightarrow>
               if d = 93 then Some ([fst p], r1)
               else if d = 44 then
                 (case array (skip_ws r1) of
                    None \<Rightarrow> None
                  | Some q \<Rightarrow> Some (fst p # fst q, snd q))
               else None))"

definition object_step ::
  "(pystr \<Rightarrow> (json \<times> pystr) option) \<Rightarrow> (pystr \<Rightarrow> ((pystr \<times> json) list \<times> pystr) option)
     \<Rightarrow> pystr \<Rightarrow> ((pystr \<times> json) list \<times> pystr) option" where
  "object_step val object s =
     (case scanstring s of
        None \<Rightarrow> None
      | Some k \<Rightarrow>
          (case skip_ws (snd k) of
             [] \<Rightarrow> None
           | d # r1 \<Rightarrow>
               if d \<noteq> 58 then None
               else
                 (case val (skip_ws r1) of
                    None \<Rightarrow> None
                  | Some p \<Rightarrow>
                      (case skip_ws (snd p) of
                         [] \<Rightarrow> None
                       | d2 # r3 \<Rightarrow>
                           if d2 = 125 then Some ([(fst k, fst p)], r3)
                           else if d2 = 44 then
                             (case skip_ws r3 of
                                [] \<Rightarrow> None
                              | d3 # r4 \<Rightarrow>
                                  if d3 = 34 then
                                    (case object r4 of
                                       None \<Rightarrow> None
                                     | Some q \<Rightarrow> Some ((fst k, fst p) # fst q, snd q))
                                  else None)
                           else None))))"

fun parse_value :: "nat \<Rightarrow> pystr \<Rightarrow> (json \<times> pystr) option"
and parse_array :: "nat \<Rightarrow> pystr \<Rightarrow> (json list \<times> pystr) option"
and parse_object :: "nat \<Rightarrow> pystr \<Rightarrow> ((pystr \<times> json) list \<times> pystr) option" where
  "parse_value 0 s = None"
| "parse_value (Suc n) s = value_step (parse_array n) (parse_object n) s"
| "parse_array 0 s = None"
| "parse_array (Suc n) s = array_step (parse_value n) (parse_array n) s"
| "parse_object 0 s = None"
| "parse_object (Suc n) s = object_step (parse_value n) (parse_object n) s"

definition json_loads :: "pystr \<Rightarrow> json option" where
  "json_loads s =
     (case parse_value (length s) (skip_ws s) of
        None \<Rightarrow> None
      | Some p \<Rightarrow> if skip_ws (snd p) = [] then Some (fst p) else None)"

text \<open>What \<open>response.json()\<close> returns has no key twice in an object.\<close>

fun wf_json :: "json \<Rightarrow> bool" where
  "wf_json (JArr xs) = list_all wf_json xs"
| "wf_json (JObj kvs) = (distinct (map fst kvs) \<and> list_all (\<lambda>kv. wf_json (snd kv)) kvs)"
| "wf_json j = True"

section \<open>Text files\<close>

text \<open>
  \<open>open(name, "a")\<close> is a text file: what is written is encoded by the platform's text
  layer, character by character, and a character it cannot encode makes the write raise.
  The world says which encoding that is. UTF-8 with the newline kept as one byte is the
  usual one; it cannot encode a lone surrogate.
\<close>

definition encodable :: "nat \<Rightarrow> bool" where
  "encodable c = (c < 55296 \<or> (57343 < c \<and> c < 1114112))"

definition utf8_char :: "nat \<Rightarrow> nat list" where
  "utf8_char c =
     (if c < 128 then [c]
      else if c < 2048 then [192 + c div 64, 128 + c mod 64]
      else if c < 65536 then [224 + c div 4096, 128 + (c div 64) mod 64, 128 + c mod 64]
      else [240 + c div 262144, 128 + (c div 4096) mod 64, 128 + (c div 64) mod 64,
            128 + c mod 64])"

definition utf8_encode :: "pystr \<Rightarrow> nat list" where
  "utf8_encode s = concat (map utf8_char s)"

definition utf8 :: "nat \<Rightarrow> nat list option" where
  "utf8 c = (if encodable c then Some (utf8_char c) else None)"

section \<open>HTTP\<close>

datatype http_method = GET | POST | HEAD | PUT | DELETE | OPTIONS | TRACE | PATCH

record request =
  req_method :: http_method
  req_url :: pystr
  req_headers :: "(pystr \<times> pystr) list"
  req_params :: "(pystr \<times> pystr) list"
  req_data :: "(pystr \<times> pystr) list"
  req_timeout :: "nat option"

text \<open>A response as the program reads it: the status, and what \<open>response.json()\<close>
  gives (\<open>None\<close> when the body is not JSON).\<close>

record response =
  status_code :: nat
  json_body :: "json option"

text \<open>The outcome of one call of the session: a response, or an exception of the
  transport (no connection, a timeout, the retries exhausted).\<close>

datatype reply = Answer response | NoAnswer

text \<open>
  The world of one run: the outcomes the network will give to the next calls, in order
  (when none is left, a call fails as one without an answer does); the requests issued so
  far; the names given to \<open>open\<close> so far; and every line written, with the name of the
  file its handle was opened on. Two parts of it never change: the names the file system
  lets the program open for appending (the directory exists, the name is not too long,
  the process may write there), and the bytes the text layer writes for each character
  (\<open>None\<close> where it cannot encode the character).
\<close>

record world =
  replies :: "reply list"
  sent :: "request list"
  opened :: "pystr list"
  written :: "(pystr \<times> pystr) list"
  openable :: "pystr \<Rightarrow> bool"
  encoding :: "nat \<Rightarrow> nat list option"

definition file_text :: "world \<Rightarrow> pystr \<Rightarrow> pystr" where
  "file_text w name = concat (map snd (filter (\<lambda>l. fst l = name) (written w)))"

definition file_bytes :: "world \<Rightarrow> pystr \<Rightarrow> nat list" where
  "file_bytes w name =
     concat (map (\<lambda>c. case encoding w c of None \<Rightarrow> [] | Some bs \<Rightarrow> bs) (file_text w name))"

subsection \<open>The session and its retries (lines 21-30)\<close>

text \<open>
  \<open>Retry(total, backoff_factor, status_forcelist)\<close>: the number of retries allowed after
  the first attempt, the backoff factor, and the statuses that force a retry. The
  methods a status may be retried for are not given in line 23, so they are the
  library's default set, which has no POST.
\<close>

record retry =
  total :: nat
  backoff_factor :: nat
  status_forcelist :: "nat list"
  allowed_methods :: "http_method list"

definition DEFAULT_ALLOWED_METHODS :: "http_method list" where
  "DEFAULT_ALLOWED_METHODS = [DELETE, GET, HEAD, OPTIONS, PUT, TRACE]"

definition Retry :: "nat \<Rightarrow> nat \<Rightarrow> nat list \<Rightarrow> retry" where
  "Retry n f sl =
     \<lparr>total = n, backoff_factor = f, status_forcelist = sl,
      allowed_methods = DEFAULT_ALLOWED_METHODS\<rparr>"

text \<open>
  A session is its adapters, each mounted on a URL prefix and carrying a retry policy,
  in the order the session looks them up. \<open>requests.Session()\<close> mounts an adapter
  without retries on \<open>https://\<close> and on \<open>http://\<close>. \<open>mount\<close> sets the adapter of a
  prefix, in place when the prefix is there, and then moves the shorter prefixes behind.
\<close>

record session =
  mounted :: "(pystr \<times> retry) list"

definition Session :: session where
  "Session = \<lparr>mounted = [(ascii ''https://'', Retry 0 0 []), (ascii ''http://'', Retry 0 0 [])]\<rparr>"

definition mount :: "session \<Rightarrow> pystr \<Rightarrow> retry \<Rightarrow> session" where
  "mount s p r =
     (let m = (if p \<in> set (map fst (mounted s))
               then map (\<lambda>a. if fst a = p then (p, r) else a) (mounted s)
               else mounted s @ [(p, r)])
      in \<lparr>mounted = filter (\<lambda>a. \<not> length (fst a) < length p) m
                       @ filter (\<lambda>a. length (fst a) < length p) m\<rparr>)"

definition get_session_with_retries :: session where
  "get_session_with_retries =
     mount Session (ascii ''https://'') (Retry 5 1 [429, 500, 502, 503, 504])"

text \<open>\<open>str.lower\<close>, on the letters A to Z.\<close>

definition py_lower :: "pystr \<Rightarrow> pystr" where
  "py_lower s = map (\<lambda>c. if 65 \<le> c \<and> c \<le> 90 then c + 32 else c) s"

text \<open>The adapter of a URL: the first mounted prefix the lowered URL starts with.\<close>

definition get_adapter :: "session \<Rightarrow> pystr \<Rightarrow> retry option" where
  "get_adapter s u =
     (case filter (\<lambda>a. take (length (fst a)) (py_lower u) = py_lower (fst a)) (mounted s) of
        [] \<Rightarrow> None
      | a # _ \<Rightarrow> Some (snd a))"

text \<open>
  What one attempt on the wire gives: a response, no connection, or a connection that
  broke while the response was read.
\<close>

datatype wire = Served response | ConnectFailed | ReadFailed

text \<open>\<open>Retry.is_retry\<close> for a response without a \<open>Retry-After\<close> header.\<close>

definition is_retry :: "retry \<Rightarrow> http_method \<Rightarrow> nat \<Rightarrow> bool" where
  "is_retry pol m sc = (m \<in> set (allowed_methods pol) \<and> sc \<in> set (status_forcelist pol))"

text \<open>
  The adapter's loop, with the retries that are left: a response that forces no retry
  is handed back; one that does, and a failed connection, use up a retry, and with none
  left the call raises. A broken read is retried for the allowed methods only. The
  result is the outcome handed to the program and the answers the wire still holds.
  The outcomes in \<open>replies\<close> are the ones this loop hands back.
\<close>

fun urlopen :: "retry \<Rightarrow> http_method \<Rightarrow> nat \<Rightarrow> wire list \<Rightarrow> reply \<times> wire list" where
  "urlopen pol m n [] = (NoAnswer, [])"
| "urlopen pol m n (Served r # ws) =
     (if is_retry pol m (status_code r)
      then (if n = 0 then (NoAnswer, ws) else urlopen pol m (n - 1) ws)
      else (Answer r, ws))"
| "urlopen pol m n (ConnectFailed # ws) =
     (if n = 0 then (NoAnswer, ws) else urlopen pol m (n - 1) ws)"
| "urlopen pol m n (ReadFailed # ws) =
     (if n = 0 \<or> m \<notin> set (allowed_methods pol) then (NoAnswer, ws)
      else urlopen pol m (n - 1) ws)"

definition session_send :: "session \<Rightarrow> http_method \<Rightarrow> pystr \<Rightarrow> wire list \<Rightarrow> reply \<times> wire list"
  where
  "session_send s m u ws =
     (case get_adapter s u of
        None \<Rightarrow> (NoAnswer, ws)
      | Some pol \<Rightarrow> urlopen pol m (total pol) ws)"

text \<open>
  One call of \<open>session.get\<close> or \<open>session.post\<close>. A URL that is not a string raises
  before anything is sent. Otherwise the request is issued and the network's next outcome
  is its result; the outcome is the one the session hands back, after the retries of its
  adapters. A string the session cannot serve as a URL is among the calls without an
  answer.
\<close>

definition session_request ::
  "session \<Rightarrow> world \<Rightarrow> http_method \<Rightarrow> json \<Rightarrow> (pystr \<times> pystr) list \<Rightarrow> (pystr \<times> pystr) list
     \<Rightarrow> (pystr \<times> pystr) list \<Rightarrow> nat option \<Rightarrow> world \<times> (error + response)" where
  "session_request s w m u hs ps d t =
     (case u of
        JStr a \<Rightarrow>
          (let r = \<lparr>req_method = m, req_url = a, req_headers = hs, req_params = ps,
                    req_data = d, req_timeout = t\<rparr>
           in case replies w of
                [] \<Rightarrow> (w\<lparr>sent := sent w @ [r]\<rparr>, Inl RequestException)
              | NoAnswer # rs \<Rightarrow> (w\<lparr>replies := rs, sent := sent w @ [r]\<rparr>, Inl RequestException)
              | Answer x # rs \<Rightarrow> (w\<lparr>replies := rs, sent := sent w @ [r]\<rparr>, Inr x))
      | _ \<Rightarrow> (w, Inl RequestException))"

definition raise_for_status :: "response \<Rightarrow> error + unit" where
  "raise_for_status r =
     (if 400 \<le> status_code r \<and> status_code r < 600 then Inl (HTTPError (status_code r))
      else Inr ())"

definition response_json :: "response \<Rightarrow> error + json" where
  "response_json r = (case json_body r of None \<Rightarrow> Inl JSONDecodeError | Some j \<Rightarrow> Inr j)"

section \<open>The program\<close>

definition REQUEST_TIMEOUT :: nat where
  "REQUEST_TIMEOUT = 120"

definition MAX_FILE_SIZE_MB :: nat where
  "MAX_FILE_SIZE_MB = 500"

subsection \<open>\<open>get_access_token\<close>\<close>

definition get_access_token ::
  "session \<Rightarrow> pystr \<Rightarrow> pystr \<Rightarrow> pystr \<Rightarrow> world \<Rightarrow> world \<times> (error + json)" where
  "get_access_token s tenant_id client_id client_secret w =
     (let url = ascii ''https://login.microsoftonline.com/'' @ tenant_id
                  @ ascii ''/oauth2/v2.0/token'';
          body = [(ascii ''grant_type'', ascii ''client_credentials''),
                  (ascii ''client_id'', client_id),
                  (ascii ''client_secret'', client_secret),
                  (ascii ''scope'', ascii ''https://manage.office.com/.default'')]
      in case session_request s w POST (JStr url) [] [] body None of
           (w1, Inl e) \<Rightarrow> (w1, Inl e)
         | (w1, Inr resp) \<Rightarrow>
             (case raise_for_status resp of
                Inl e \<Rightarrow> (w1, Inl e)
              | Inr _ \<Rightarrow>
                  (case response_json resp of
                     Inl e \<Rightarrow> (w1, Inl e)
                   | Inr j \<Rightarrow> (w1, py_subscript j (ascii ''access_token'')))))"

subsection \<open>\<open>get_new_file_name\<close>\<close>

definition get_new_file_name :: "pystr \<Rightarrow> pystr \<Rightarrow> nat \<Rightarrow> pystr" where
  "get_new_file_name base_name extension index = base_name @ 95 # str_nat index @ extension"

subsection \<open>\<open>collect_logs\<close>\<close>

text \<open>The four variables of the collection loop (lines 62-65).\<close>

record loop_state =
  file_index :: nat
  current_file_name :: pystr
  current_file_size :: nat
  total_logs :: nat

text \<open>Lines 86-93: the accounting after one event has been written.\<close>

definition account :: "pystr \<Rightarrow> pystr \<Rightarrow> loop_state \<Rightarrow> json \<Rightarrow> loop_state" where
  "account base_file_name extension st event =
     (let st1 = st\<lparr>current_file_size := current_file_size st + (length (json_dumps event) + 1),
                    total_logs := total_logs st + 1\<rparr>
      in if current_file_size st1 > MAX_FILE_SIZE_MB * 1024 * 1024
         then st1\<lparr>file_index := file_index st1 + 1,
                   current_file_name :=
                     get_new_file_name base_file_name extension (file_index st1 + 1),
                   current_file_size := 0\<rparr>
         else st1)"

text \<open>Lines 84-85: the event and a newline go to the handle \<open>file\<close>, which stays the
  file it was opened on.\<close>

definition file_write :: "world \<Rightarrow> pystr \<Rightarrow> pystr \<Rightarrow> world \<times> (error + unit)" where
  "file_write w file line =
     (if list_all (\<lambda>c. encoding w c \<noteq> None) line
      then (w\<lparr>written := written w @ [(file, line)]\<rparr>, Inr ())
      else (w, Inl UnicodeEncodeError))"

text \<open>Lines 83-93: the loop over the events of one content blob, inside the \<open>with\<close>.\<close>

fun write_events ::
  "pystr \<Rightarrow> pystr \<Rightarrow> pystr \<Rightarrow> world \<Rightarrow> loop_state \<Rightarrow> json list \<Rightarrow> world \<times> (error + loop_state)"
  where
  "write_events file base_file_name extension w st [] = (w, Inr st)"
| "write_events file base_file_name extension w st (event # events) =
     (case file_write w file (json_dumps event @ [10]) of
        (w1, Inl e) \<Rightarrow> (w1, Inl e)
      | (w1, Inr _) \<Rightarrow>
          write_events file base_file_name extension w1
            (account base_file_name extension st event) events)"

text \<open>
  Line 82, \<open>open(current_file_name, "a")\<close>: a name with a NUL character raises
  ValueError, a name the file system refuses raises OSError; otherwise the file is open
  for appending, created when it was not there.
\<close>

definition py_open :: "world \<Rightarrow> pystr \<Rightarrow> world \<times> (error + unit)" where
  "py_open w name =
     (if 0 \<in> set name then (w, Inl ValueError)
      else if openable w name then (w\<lparr>opened := opened w @ [name]\<rparr>, Inr ())
      else (w, Inl OSError))"

text \<open>Lines 71-93: the loop over the listing.\<close>

fun collect_loop ::
  "session \<Rightarrow> (pystr \<times> pystr) list \<Rightarrow> pystr \<Rightarrow> pystr \<Rightarrow> world \<Rightarrow> loop_state \<Rightarrow> json list
     \<Rightarrow> world \<times> (error + loop_state)" where
  "collect_loop s headers base_file_name extension w st [] = (w, Inr st)"
| "collect_loop s headers base_file_name extension w st (content # content_list) =
     (case py_get content (ascii ''contentUri'') of
        Inl e \<Rightarrow> (w, Inl e)
      | Inr content_uri \<Rightarrow>
          if \<not> py_truthy content_uri
          then collect_loop s headers base_file_name extension w st content_list
          else
            (case session_request s w GET content_uri headers [] [] (Some REQUEST_TIMEOUT) of
               (w1, Inl e) \<Rightarrow> (w1, Inl e)
             | (w1, Inr event_response) \<Rightarrow>
                 (case raise_for_status event_response of
                    Inl e \<Rightarrow> (w1, Inl e)
                  | Inr _ \<Rightarrow>
                      (case response_json event_response of
                         Inl e \<Rightarrow> (w1, Inl e)
                       | Inr event_data \<Rightarrow>
                           (case py_open w1 (current_file_name st) of
                              (w2, Inl e) \<Rightarrow> (w2, Inl e)
                            | (w2, Inr _) \<Rightarrow>
                                (case py_iter event_data of
                                   Inl e \<Rightarrow> (w2, Inl e)
                                 | Inr events \<Rightarrow>
                                     (case write_events (current_file_name st) base_file_name
                                             extension w2 st events of
                                        (w3, Inl e) \<Rightarrow> (w3, Inl e)
                                      | (w3, Inr st') \<Rightarrow>
                                          collect_loop s headers base_file_name extension w3
                                            st' content_list)))))))"

definition collect_logs ::
  "session \<Rightarrow> pystr \<Rightarrow> pystr \<Rightarrow> pystr \<Rightarrow> pystr \<Rightarrow> pystr \<Rightarrow> pystr \<Rightarrow> world
     \<Rightarrow> world \<times> (error + nat)" where
  "collect_logs s token tenant_id start_date_time end_date_time base_file_name extension w =
     (let headers = [(ascii ''Authorization'', ascii ''Bearer '' @ token),
                     (ascii ''Accept'', ascii ''application/json'')];
          base_url = ascii ''https://manage.office.com/api/v1.0/'' @ tenant_id
                       @ ascii ''/activity/feed/subscriptions/content'';
          params = [(ascii ''contentType'', ascii ''Audit.AzureActiveDirectory''),
                    (ascii ''startTime'', start_date_time),
                    (ascii ''endTime'', end_date_time)];
          st = \<lparr>file_index = 0,
                current_file_name = get_new_file_name base_file_name extension 0,
                current_file_size = 0,
                total_logs = 0\<rparr>
      in case session_request s w GET (JStr base_url) headers params [] (Some REQUEST_TIMEOUT) of
           (w1, Inl e) \<Rightarrow> (w1, Inl e)
         | (w1, Inr resp) \<Rightarrow>
             (case raise_for_status resp of
                Inl e \<Rightarrow> (w1, Inl e)
              | Inr _ \<Rightarrow>
                  (case response_json resp of
                     Inl e \<Rightarrow> (w1, Inl e)
                   | Inr content_list \<Rightarrow>
                       (case py_iter content_list of
                          Inl e \<Rightarrow> (w1, Inl e)
                        | Inr contents \<Rightarrow>
                            (case collect_loop s headers base_file_name extension w1 st contents of
                               (w2, Inl e) \<Rightarrow> (w2, Inl e)
                             | (w2, Inr st') \<Rightarrow> (w2, Inr (total_logs st')))))))"

section \<open>Notions used in the statements\<close>

text \<open>Line 86: what one event adds to the counter.\<close>

definition line_size :: "json \<Rightarrow> nat" where
  "line_size event = length (json_dumps event) + 1"

text \<open>The line of an event can be written: the world's text layer can encode every
  character of it.\<close>

definition writable :: "world \<Rightarrow> json \<Rightarrow> bool" where
  "writable w event = list_all (\<lambda>c. encoding w c \<noteq> None) (json_dumps event @ [10])"

text \<open>Line 82 succeeds on the name.\<close>

definition can_open :: "world \<Rightarrow> pystr \<Rightarrow> bool" where
  "can_open w name = (0 \<notin> set name \<and> openable w name)"

text \<open>Lines 72-73: the entry is not skipped.\<close>

definition carries_uri :: "json \<Rightarrow> bool" where
  "carries_uri content =
     (case py_get content (ascii ''contentUri'') of Inl e \<Rightarrow> False | Inr v \<Rightarrow> py_truthy v)"

definition is_object :: "json \<Rightarrow> bool" where
  "is_object j = (case j of JObj kvs \<Rightarrow> True | _ \<Rightarrow> False)"

text \<open>A listing entry as the API documents it: an object whose \<open>contentUri\<close>, when it
  is not skipped, is a string.\<close>

definition content_uri_ok :: "json \<Rightarrow> bool" where
  "content_uri_ok content =
     (case py_get content (ascii ''contentUri'') of
        Inl e \<Rightarrow> False
      | Inr v \<Rightarrow> (case v of JStr u \<Rightarrow> True | _ \<Rightarrow> \<not> py_truthy v))"

text \<open>The answer to a content fetch: a status and an array of events.\<close>

definition fetched :: "nat \<times> json list \<Rightarrow> reply" where
  "fetched b = Answer \<lparr>status_code = fst b, json_body = Some (JArr (snd b))\<rparr>"

definition is_2xx :: "nat \<Rightarrow> bool" where
  "is_2xx sc = (200 \<le> sc \<and> sc < 300)"

text \<open>Lines 62-65: the state the loop starts in.\<close>

definition start_state :: "pystr \<Rightarrow> pystr \<Rightarrow> loop_state" where
  "start_state base_file_name extension =
     \<lparr>file_index = 0,
      current_file_name = get_new_file_name base_file_name extension 0,
      current_file_size = 0,
      total_logs = 0\<rparr>"

text \<open>For the proofs about the decoder: the calls a value needs, the text of one item of
  an object, the characters that may follow a value in a line, and those a value may
  start with.\<close>

fun need :: "json \<Rightarrow> nat" where
  "need (JArr xs) = Suc (sum_list (map (\<lambda>x. Suc (need x)) xs))"
| "need (JObj kvs) = Suc (sum_list (map (\<lambda>kv. Suc (need (snd kv))) kvs))"
| "need j = 1"

definition item :: "pystr \<times> json \<Rightarrow> pystr" where
  "item kv = encode_basestring (fst kv) @ ascii '': '' @ json_dumps (snd kv)"

definition ok_rest :: "pystr \<Rightarrow> bool" where
  "ok_rest t = (case t of [] \<Rightarrow> True | c # _ \<Rightarrow> c = 44 \<or> c = 93 \<or> c = 125 \<or> c = 10)"

definition value_head :: "nat \<Rightarrow> bool" where
  "value_head c = (c = 110 \<or> c = 116 \<or> c = 102 \<or> c = 45 \<or> is_digit c \<or> c = 34 \<or> c = 91
                    \<or> c = 123)"

section \<open>Concrete runs\<close>

definition no_world :: world where
  "no_world = \<lparr>replies = [], sent = [], opened = [], written = [],
                 openable = (\<lambda>name. True), encoding = utf8\<rparr>"

text \<open>An object whose one value is a string of 524287991 letters \<open>x\<close>: 524288000
  characters when serialised.\<close>

definition big_event :: json where
  "big_event = JObj [(ascii ''a'', JStr (replicate 524287991 120))]"

text \<open>The empty object.\<close>

definition small_event :: json where
  "small_event = JObj []"

text \<open>An object whose one value is the letter U+00E9: one character, two bytes.\<close>

definition accented_event :: json where
  "accented_event = JObj [(ascii ''a'', JStr [233])]"

text \<open>A listing of one entry, and the events its content URI gives.\<close>

definition one_blob_world :: "json list \<Rightarrow> world" where
  "one_blob_world events =
     \<lparr>replies =
        [Answer \<lparr>status_code = 200,
                 json_body = Some (JArr [JObj [(ascii ''contentUri'', JStr (ascii ''https://h/c''))]])\<rparr>,
         Answer \<lparr>status_code = 200, json_body = Some (JArr events)\<rparr>],
      sent = [], opened = [], written = [],
      openable = (\<lambda>name. True), encoding = utf8\<rparr>"

definition collect_out :: "world \<Rightarrow> world \<times> (error + nat)" where
  "collect_out w =
     collect_logs get_session_with_retries (ascii ''token'') (ascii ''tenant'')
       (ascii ''2024-01-01T00:00:00Z'') (ascii ''2024-01-02T00:00:00Z'')
       (ascii ''out'') (ascii ''.json'') w"

definition token_of :: "world \<Rightarrow> world \<times> (error + json)" where
  "token_of w =
     get_access_token get_session_with_retries (ascii ''tenant'') (ascii ''id'') (ascii ''secret'') w"

definition token_world :: "nat \<Rightarrow> json \<Rightarrow> world" where
  "token_world sc j =
     \<lparr>replies = [Answer \<lparr>status_code = sc, json_body = Some j\<rparr>],
      sent = [], opened = [], written = [],
      openable = (\<lambda>name. True), encoding = utf8\<rparr>"

text \<open>Four entries: two with a URI, one without the field, one with an empty URI.\<close>

definition four_entries :: "json list" where
  "four_entries =
     [JObj [(ascii ''contentUri'', JStr (ascii ''https://h/a''))],
      JObj [(ascii ''contentId'', JStr (ascii ''z''))],
      JObj [(ascii ''contentUri'', JStr [])],
      JObj [(ascii ''contentUri'', JStr (ascii ''https://h/b''))]]"

definition two_blobs :: "(nat \<times> json list) list" where
  "two_blobs = [(200, [small_event, accented_event]), (200, [small_event])]"

definition two_blob_world :: world where
  "two_blob_world =
     \<lparr>replies = Answer \<lparr>status_code = 200, json_body = Some (JArr four_entries)\<rparr>
                  # map fetched two_blobs,
      sent = [], opened = [], written = [],
      openable = (\<lambda>name. True), encoding = utf8\<rparr>"

text \<open>Three entries, none with a URI to fetch: no field, an empty string, \<open>null\<close>.\<close>

definition idle_entries :: "json list" where
  "idle_entries =
     [JObj [], JObj [(ascii ''contentUri'', JStr [])], JObj [(ascii ''contentUri'', JNull)]]"

definition idle_world :: world where
  "idle_world =
     \<lparr>replies = [Answer \<lparr>status_code = 200, json_body = Some (JArr idle_entries)\<rparr>],
      sent = [], opened = [], written = [],
      openable = (\<lambda>name. True), encoding = utf8\<rparr>"

text \<open>The URLs of the two fixed requests for the tenant \<open>tenant\<close>, an answer 503, and
  the answers that would follow it.\<close>

definition token_url :: pystr where
  "token_url = ascii ''https://login.microsoftonline.com/'' @ ascii ''tenant''
                 @ ascii ''/oauth2/v2.0/token''"

definition listing_url :: pystr where
  "listing_url = ascii ''https://manage.office.com/api/v1.0/'' @ ascii ''tenant''
                   @ ascii ''/activity/feed/subscriptions/content''"

definition unavailable :: response where
  "unavailable = \<lparr>status_code = 503, json_body = None\<rparr>"

definition token_answer :: response where
  "token_answer =
     \<lparr>status_code = 200,
      json_body = Some (JObj [(ascii ''access_token'', JStr (ascii ''tok''))])\<rparr>"

definition empty_listing :: response where
  "empty_listing = \<lparr>status_code = 200, json_body = Some (JArr [])\<rparr>"

section \<open>Facts about the loop\<close>

lemma is_2xx_no_raise: "is_2xx (status_code r) \<Longrightarrow> raise_for_status r = Inr ()"
  by (simp add: is_2xx_def raise_for_status_def)

lemma writable_written [simp]: "writable (w\<lparr>written := l\<rparr>) = writable w"
  by (rule ext) (simp add: writable_def)

lemma writable_opened [simp]: "writable (w\<lparr>opened := l\<rparr>) = writable w"
  by (rule ext) (simp add: writable_def)

lemma writable_sent [simp]: "writable (w\<lparr>sent := l\<rparr>) = writable w"
  by (rule ext) (simp add: writable_def)

lemma writable_replies [simp]: "writable (w\<lparr>replies := l\<rparr>) = writable w"
  by (rule ext) (simp add: writable_def)

lemma can_open_written [simp]: "can_open (w\<lparr>written := l\<rparr>) = can_open w"
  by (rule ext) (simp add: can_open_def)

lemma can_open_opened [simp]: "can_open (w\<lparr>opened := l\<rparr>) = can_open w"
  by (rule ext) (simp add: can_open_def)

lemma can_open_sent [simp]: "can_open (w\<lparr>sent := l\<rparr>) = can_open w"
  by (rule ext) (simp add: can_open_def)

lemma can_open_replies [simp]: "can_open (w\<lparr>replies := l\<rparr>) = can_open w"
  by (rule ext) (simp add: can_open_def)

lemma py_open_ok:
  "can_open w n \<Longrightarrow> py_open w n = (w\<lparr>opened := opened w @ [n]\<rparr>, Inr ())"
  by (simp add: py_open_def can_open_def)

lemma write_events_ok:
  "list_all (writable w) evs \<Longrightarrow>
   write_events f b x w st evs =
     (w\<lparr>written := written w @ map (\<lambda>e. (f, json_dumps e @ [10])) evs\<rparr>,
      Inr (foldl (account b x) st evs))"
proof (induction evs arbitrary: w st)
  case Nil
  show ?case by simp
next
  case (Cons e evs)
  let ?w1 = "w\<lparr>written := written w @ [(f, json_dumps e @ [10])]\<rparr>"
  have fw: "file_write w f (json_dumps e @ [10]) = (?w1, Inr ())"
    using Cons.prems by (simp add: file_write_def writable_def)
  have "list_all (writable ?w1) evs" using Cons.prems by simp
  from Cons.IH[OF this, of "account b x st e"] show ?case
    by (simp add: fw)
qed

lemma write_events_Inr:
  "write_events f b x w st evs = (w', Inr st') \<Longrightarrow>
   list_all (writable w) evs \<and> st' = foldl (account b x) st evs"
proof (induction evs arbitrary: w st)
  case Nil
  then show ?case by simp
next
  case (Cons e evs)
  let ?w1 = "w\<lparr>written := written w @ [(f, json_dumps e @ [10])]\<rparr>"
  from Cons.prems have ok: "list_all (\<lambda>c. encoding w c \<noteq> None) (json_dumps e @ [10])"
    by (auto simp: file_write_def split: if_splits)
  then have fw: "file_write w f (json_dumps e @ [10]) = (?w1, Inr ())"
    by (simp add: file_write_def)
  with Cons.prems have "write_events f b x ?w1 (account b x st e) evs = (w', Inr st')"
    by simp
  from Cons.IH[OF this] ok show ?case by (simp add: writable_def)
qed

lemma total_logs_account: "total_logs (account b x st e) = total_logs st + 1"
  by (simp add: account_def Let_def)

lemma total_logs_foldl: "total_logs (foldl (account b x) st evs) = total_logs st + length evs"
  by (induction evs arbitrary: st) (simp_all add: total_logs_account)

lemma account_keep:
  "current_file_size st + line_size e \<le> MAX_FILE_SIZE_MB * 1024 * 1024 \<Longrightarrow>
   file_index (account b x st e) = file_index st \<and>
   current_file_size (account b x st e) = current_file_size st + line_size e"
  by (simp add: account_def Let_def line_size_def)

lemma account_reset:
  "MAX_FILE_SIZE_MB * 1024 * 1024 < current_file_size st + line_size e \<Longrightarrow>
   file_index (account b x st e) = file_index st + 1 \<and>
   current_file_size (account b x st e) = 0 \<and>
   current_file_name (account b x st e) = get_new_file_name b x (file_index st + 1)"
  by (simp add: account_def Let_def line_size_def)

lemma account_index_or_counter:
  "file_index (account b x st e) = file_index st
     \<and> current_file_size (account b x st e) = current_file_size st + line_size e
   \<or> file_index (account b x st e) = file_index st + 1
     \<and> current_file_size (account b x st e) = 0"
  by (simp add: account_def Let_def line_size_def)

lemma file_index_mono: "file_index st \<le> file_index (foldl (account b x) st evs)"
proof (induction evs arbitrary: st)
  case Nil
  show ?case by simp
next
  case (Cons e evs)
  have "file_index st \<le> file_index (account b x st e)"
    using account_index_or_counter[of b x st e] by auto
  also have "\<dots> \<le> file_index (foldl (account b x) (account b x st e) evs)"
    by (rule Cons.IH)
  finally show ?case by simp
qed

lemma current_file_name_account:
  "current_file_name st = get_new_file_name b x (file_index st) \<Longrightarrow>
   current_file_name (account b x st e) = get_new_file_name b x (file_index (account b x st e))"
  by (simp add: account_def Let_def)

lemma current_file_name_foldl:
  "current_file_name st = get_new_file_name b x (file_index st) \<Longrightarrow>
   current_file_name (foldl (account b x) st evs)
     = get_new_file_name b x (file_index (foldl (account b x) st evs))"
  by (induction evs arbitrary: st) (simp_all add: current_file_name_account)

lemma str_nat_no_nul: "0 \<notin> set (str_nat n)"
proof (induction n rule: str_nat.induct)
  case (1 n)
  show ?case
  proof (cases "n < 10")
    case True
    then show ?thesis by (subst str_nat.simps) simp
  next
    case False
    with 1 show ?thesis by (subst str_nat.simps) simp
  qed
qed

section \<open>Timeouts\<close>

lemma write_events_sent: "sent (fst (write_events f b x w st evs)) = sent w"
  by (induction evs arbitrary: w st) (auto simp: file_write_def split: prod.splits sum.splits)

lemma session_request_sent:
  "sent (fst (session_request s w m u hs ps d t)) = sent w
   \<or> (\<exists>q. sent (fst (session_request s w m u hs ps d t)) = sent w @ [q] \<and> req_timeout q = t)"
  by (auto simp: session_request_def Let_def split: json.splits list.splits reply.splits)

lemma collect_loop_sent:
  "\<exists>qs. sent (fst (collect_loop s hs b x w st entries)) = sent w @ qs
        \<and> list_all (\<lambda>q. req_timeout q = Some REQUEST_TIMEOUT) qs"
proof (induction entries arbitrary: w st)
  case Nil
  show ?case by simp
next
  case (Cons c cs)
  show ?case
  proof (cases "py_get c (ascii ''contentUri'')")
    case (Inl e)
    then show ?thesis by simp
  next
    case (Inr v)
    show ?thesis
    proof (cases "py_truthy v")
      case False
      with Inr Cons.IH[of w st] show ?thesis by simp
    next
      case True
      obtain w1 res where sr: "session_request s w GET v hs [] [] (Some REQUEST_TIMEOUT) = (w1, res)"
        by (cases "session_request s w GET v hs [] [] (Some REQUEST_TIMEOUT)")
      from session_request_sent[of s w GET v hs "[]" "[]" "Some REQUEST_TIMEOUT"] sr
      obtain q1 where q1: "sent w1 = sent w @ q1"
        "list_all (\<lambda>q. req_timeout q = Some REQUEST_TIMEOUT) q1"
        by (cases "sent w1 = sent w") auto
      show ?thesis
      proof (cases res)
        case (Inl e)
        with Inr True sr q1 show ?thesis by auto
      next
        case r: (Inr resp)
        show ?thesis
        proof (cases "raise_for_status resp")
          case (Inl e)
          with Inr True sr q1 r show ?thesis by auto
        next
          case rf: (Inr u)
          show ?thesis
          proof (cases "response_json resp")
            case (Inl e)
            with Inr True sr q1 r rf show ?thesis by auto
          next
            case rj: (Inr event_data)
            obtain w2 ro where po: "py_open w1 (current_file_name st) = (w2, ro)"
              by (cases "py_open w1 (current_file_name st)")
            have s2: "sent w2 = sent w @ q1"
              using q1 po by (auto simp: py_open_def split: if_splits)
            show ?thesis
            proof (cases ro)
              case (Inl e)
              with Inr True sr q1 r rf rj s2 po show ?thesis by auto
            next
              case op: (Inr uu)
              show ?thesis
              proof (cases "py_iter event_data")
                case (Inl e)
                with Inr True sr q1 r rf rj s2 po op show ?thesis by auto
              next
                case it: (Inr events)
                obtain w3 res3 where
                  we: "write_events (current_file_name st) b x w2 st events = (w3, res3)"
                  by (cases "write_events (current_file_name st) b x w2 st events")
                have s3: "sent w3 = sent w @ q1"
                  using write_events_sent[of "current_file_name st" b x w2 st events] we s2
                  by simp
                show ?thesis
                proof (cases res3)
                  case (Inl e)
                  with Inr True sr q1 r rf rj it we s3 po op show ?thesis by auto
                next
                  case st3: (Inr st')
                  from Cons.IH[of w3 st'] obtain qs where
                    qs: "sent (fst (collect_loop s hs b x w3 st' cs)) = sent w3 @ qs"
                    "list_all (\<lambda>q. req_timeout q = Some REQUEST_TIMEOUT) qs" by blast
                  have "collect_loop s hs b x w st (c # cs) = collect_loop s hs b x w3 st' cs"
                    using Inr True sr r rf rj it we st3 po op by simp
                  with qs s3 q1 show ?thesis by auto
                qed
              qed
            qed
          qed
        qed
      qed
    qed
  qed
qed

lemma collect_logs_requests_carry_timeout:
  "\<exists>qs. sent (fst (collect_logs s token tenant a e b x w)) = sent w @ qs
        \<and> list_all (\<lambda>q. req_timeout q = Some REQUEST_TIMEOUT) qs"
proof -
  define hs where "hs = [(ascii ''Authorization'', ascii ''Bearer '' @ token),
                     (ascii ''Accept'', ascii ''application/json'')]"
  define ps where "ps = [(ascii ''contentType'', ascii ''Audit.AzureActiveDirectory''),
                    (ascii ''startTime'', a), (ascii ''endTime'', e)]"
  define u where "u = JStr (ascii ''https://manage.office.com/api/v1.0/'' @ tenant
                       @ ascii ''/activity/feed/subscriptions/content'')"
  obtain w1 res where sr: "session_request s w GET u hs ps [] (Some REQUEST_TIMEOUT) = (w1, res)"
    by (cases "session_request s w GET u hs ps [] (Some REQUEST_TIMEOUT)")
  from session_request_sent[of s w GET u hs ps "[]" "Some REQUEST_TIMEOUT"] sr
  obtain q1 where q1: "sent w1 = sent w @ q1"
        "list_all (\<lambda>q. req_timeout q = Some REQUEST_TIMEOUT) q1"
    by (cases "sent w1 = sent w") auto
  have cl: "\<And>st cs. \<exists>qs. sent (fst (collect_loop s hs b x w1 st cs)) = sent w @ qs
        \<and> list_all (\<lambda>q. req_timeout q = Some REQUEST_TIMEOUT) qs"
  proof -
    fix st cs
    from collect_loop_sent[of s hs b x w1 st cs] obtain qs where
      "sent (fst (collect_loop s hs b x w1 st cs)) = sent w1 @ qs"
      "list_all (\<lambda>q. req_timeout q = Some REQUEST_TIMEOUT) qs" by blast
    with q1 have "sent (fst (collect_loop s hs b x w1 st cs)) = sent w @ (q1 @ qs)
        \<and> list_all (\<lambda>q. req_timeout q = Some REQUEST_TIMEOUT) (q1 @ qs)" by simp
    then show "\<exists>qs. sent (fst (collect_loop s hs b x w1 st cs)) = sent w @ qs
        \<and> list_all (\<lambda>q. req_timeout q = Some REQUEST_TIMEOUT) qs" by blast
  qed
  show ?thesis
    using sr q1 cl
    by (auto simp: collect_logs_def Let_def hs_def[symmetric] ps_def[symmetric] u_def[symmetric]
          split: sum.splits prod.splits)
       (metis fst_conv)+
qed

text \<open>
  C5. Every outbound request carries the timeout of 120 seconds. The requests of
  \<open>collect_logs\<close> do, as shown above; the request of \<open>get_access_token\<close> does not:
  whatever the inputs and whatever the network answers, the one request it issues has no
  timeout.
\<close>

theorem token_request_carries_no_timeout:
  "map req_timeout (sent (fst (get_access_token s tenant_id client_id client_secret w)))
     = map req_timeout (sent w) @ [None]"
  by (simp add: get_access_token_def session_request_def Let_def
        split: list.splits reply.splits sum.splits)

section \<open>Entries without a content URI\<close>

lemma skip_in_loop:
  "map_of kvs (ascii ''contentUri'') = None \<Longrightarrow>
   collect_loop s hs b x w st (pre @ JObj kvs # post) = collect_loop s hs b x w st (pre @ post)"
  by (induction pre arbitrary: w st) (auto split: sum.splits prod.splits simp: Let_def)

lemma skip_in_logs:
  "map_of kvs (ascii ''contentUri'') = None \<Longrightarrow>
   collect_logs s token tenant a e b x
       (w\<lparr>replies := Answer \<lparr>status_code = sc, json_body = Some (JArr (pre @ JObj kvs # post))\<rparr> # rs\<rparr>)
     = collect_logs s token tenant a e b x
       (w\<lparr>replies := Answer \<lparr>status_code = sc, json_body = Some (JArr (pre @ post))\<rparr> # rs\<rparr>)"
  by (simp add: collect_logs_def session_request_def Let_def response_json_def skip_in_loop
        raise_for_status_def)

lemma missing_uri_not_carried:
  "map_of kvs (ascii ''contentUri'') = None \<Longrightarrow> \<not> carries_uri (JObj kvs)"
  by (simp add: carries_uri_def)

lemma empty_uri_not_carried: "\<not> carries_uri (JObj ((ascii ''contentUri'', JStr []) # kvs))"
  by (simp add: carries_uri_def)

lemma null_uri_not_carried: "\<not> carries_uri (JObj ((ascii ''contentUri'', JNull) # kvs))"
  by (simp add: carries_uri_def)

lemma all_skipped_loop:
  "\<forall>c\<in>set entries. is_object c \<and> \<not> carries_uri c \<Longrightarrow>
   collect_loop s hs b x w st entries = (w, Inr st)"
proof (induction entries)
  case Nil
  show ?case by simp
next
  case (Cons c cs)
  then obtain kvs where "c = JObj kvs" by (cases c) (simp_all add: is_object_def)
  with Cons show ?case by (auto simp: carries_uri_def split: option.splits)
qed

text \<open>
  C8. A listing entry that lacks the \<open>contentUri\<close> field is skipped without an error:
  the loop passes over it with the world and the loop state unchanged (no request, no
  file opened, nothing written, no event counted), wherever it stands in the listing, so
  the whole run of \<open>collect_logs\<close> gives the result and the world it gives on the listing
  without that entry.
\<close>

theorem entry_without_uri_is_skipped:
  assumes "map_of kvs (ascii ''contentUri'') = None"
  shows "collect_loop s hs b x w st [JObj kvs] = (w, Inr st)
       \<and> collect_loop s hs b x w st (pre @ JObj kvs # post)
           = collect_loop s hs b x w st (pre @ post)
       \<and> collect_logs s token tenant a e b x
           (w\<lparr>replies := Answer \<lparr>status_code = sc,
                                  json_body = Some (JArr (pre @ JObj kvs # post))\<rparr> # rs\<rparr>)
           = collect_logs s token tenant a e b x
               (w\<lparr>replies := Answer \<lparr>status_code = sc,
                                      json_body = Some (JArr (pre @ post))\<rparr> # rs\<rparr>)"
proof -
  have "collect_loop s hs b x w st [JObj kvs] = (w, Inr st)"
    using assms by simp
  then show ?thesis
    by (intro conjI skip_in_loop[OF assms] skip_in_logs[OF assms])
qed

theorem entry_without_uri_is_skipped_witness:
  "map_of [(ascii ''contentId'', JStr (ascii ''z''))] (ascii ''contentUri'') = None
   \<and> collect_loop get_session_with_retries [] (ascii ''out'') (ascii ''.json'') no_world
        (start_state (ascii ''out'') (ascii ''.json''))
        [JObj [(ascii ''contentId'', JStr (ascii ''z''))]]
      = (no_world, Inr (start_state (ascii ''out'') (ascii ''.json'')))
   \<and> collect_out
        (no_world\<lparr>replies :=
           Answer \<lparr>status_code = 200,
                   json_body = Some (JArr ([small_event]
                     @ JObj [(ascii ''contentId'', JStr (ascii ''z''))] # [accented_event]))\<rparr>
             # []\<rparr>)
      = collect_out
        (no_world\<lparr>replies :=
           Answer \<lparr>status_code = 200,
                   json_body = Some (JArr ([small_event] @ [accented_event]))\<rparr> # []\<rparr>)"
proof -
  have h: "map_of [(ascii ''contentId'', JStr (ascii ''z''))] (ascii ''contentUri'') = None"
    by (simp add: ascii_def)
  from entry_without_uri_is_skipped[OF h] h show ?thesis
    unfolding collect_out_def by blast
qed

text \<open>
  C9. When the listing is an array of objects none of which carries a content URI to
  fetch (the field is missing, or its value is empty), \<open>collect_logs\<close> returns 0 and
  opens no file: the only thing it does is the listing request.
\<close>

theorem no_uri_no_file:
  assumes "replies w = Answer r # rs"
      and "is_2xx (status_code r)"
      and "json_body r = Some (JArr entries)"
      and "\<forall>c\<in>set entries. is_object c \<and> \<not> carries_uri c"
  shows "\<exists>w'. collect_logs s token tenant a e b x w = (w', Inr 0)
           \<and> opened w' = opened w \<and> written w' = written w
           \<and> length (sent w') = length (sent w) + 1"
  using assms(1,3) is_2xx_no_raise[OF assms(2)]
  by (simp add: collect_logs_def session_request_def Let_def response_json_def
        all_skipped_loop[OF assms(4)])

theorem no_uri_no_file_witness:
  "\<not> carries_uri (JObj [(ascii ''contentUri'', JStr [])])
   \<and> (\<exists>w'. collect_out idle_world = (w', Inr 0) \<and> opened w' = [] \<and> written w' = [])"
proof -
  have h1: "replies idle_world = Answer \<lparr>status_code = 200, json_body = Some (JArr idle_entries)\<rparr> # []"
    by (simp add: idle_world_def)
  have h2: "is_2xx (status_code \<lparr>status_code = 200, json_body = Some (JArr idle_entries)\<rparr>)"
    by (simp add: is_2xx_def)
  have h3: "json_body \<lparr>status_code = 200, json_body = Some (JArr idle_entries)\<rparr> = Some (JArr idle_entries)"
    by simp
  have h4: "\<forall>c\<in>set idle_entries. is_object c \<and> \<not> carries_uri c"
    by (simp add: idle_entries_def is_object_def carries_uri_def ascii_def)
  have h5: "\<not> carries_uri (JObj [(ascii ''contentUri'', JStr [])])"
    by (simp add: carries_uri_def)
  from no_uri_no_file[OF h1 h2 h3 h4] obtain w' where "collect_out idle_world = (w', Inr 0)"
    and "opened w' = opened idle_world" and "written w' = written idle_world"
    unfolding collect_out_def by blast
  with h5 show ?thesis by (auto simp: idle_world_def)
qed


section \<open>The token\<close>

text \<open>
  C6, as the code has it. \<open>get_access_token\<close> fails with the HTTP error that carries
  the status whenever the token endpoint answers with a status from 400 to 599. On any
  other status (every 2xx among them) with a JSON object as body it returns exactly the
  \<open>access_token\<close> field of that object, and fails with a KeyError when the field is
  absent.
\<close>

theorem get_access_token_outcomes:
  assumes "replies w = Answer r # rs"
  shows "(400 \<le> status_code r \<and> status_code r < 600 \<longrightarrow>
            snd (get_access_token s tenant_id client_id client_secret w)
              = Inl (HTTPError (status_code r)))
       \<and> (\<not> (400 \<le> status_code r \<and> status_code r < 600) \<and> json_body r = Some (JObj kvs)
            \<and> map_of kvs (ascii ''access_token'') = Some v \<longrightarrow>
            snd (get_access_token s tenant_id client_id client_secret w) = Inr v)
       \<and> (\<not> (400 \<le> status_code r \<and> status_code r < 600) \<and> json_body r = Some (JObj kvs)
            \<and> map_of kvs (ascii ''access_token'') = None \<longrightarrow>
            snd (get_access_token s tenant_id client_id client_secret w)
              = Inl (KeyError (ascii ''access_token'')))"
  using assms
  by (auto simp add: get_access_token_def session_request_def Let_def response_json_def
        raise_for_status_def)

theorem get_access_token_outcomes_witness:
  "snd (token_of (token_world 401 (JObj []))) = Inl (HTTPError 401)
   \<and> snd (token_of (token_world 200 (JObj [(ascii ''access_token'', JStr (ascii ''tok''))])))
       = Inr (JStr (ascii ''tok''))
   \<and> snd (token_of (token_world 200 (JObj [(ascii ''token_type'', JStr (ascii ''Bearer''))])))
       = Inl (KeyError (ascii ''access_token''))"
proof -
  have a: "snd (token_of (token_world 401 (JObj []))) = Inl (HTTPError 401)"
    using get_access_token_outcomes
            [where w = "token_world 401 (JObj [])"
               and r = "\<lparr>status_code = 401, json_body = Some (JObj [])\<rparr>" and rs = "[]"]
    by (simp add: token_world_def token_of_def)
  have b: "snd (token_of (token_world 200 (JObj [(ascii ''access_token'', JStr (ascii ''tok''))])))
       = Inr (JStr (ascii ''tok''))"
    using get_access_token_outcomes
            [where w = "token_world 200 (JObj [(ascii ''access_token'', JStr (ascii ''tok''))])"
               and r = "\<lparr>status_code = 200,
                  json_body = Some (JObj [(ascii ''access_token'', JStr (ascii ''tok''))])\<rparr>"
               and rs = "[]" and kvs = "[(ascii ''access_token'', JStr (ascii ''tok''))]"
               and v = "JStr (ascii ''tok'')"]
    by (simp add: token_world_def token_of_def)
  have c: "snd (token_of (token_world 200 (JObj [(ascii ''token_type'', JStr (ascii ''Bearer''))])))
       = Inl (KeyError (ascii ''access_token''))"
    using get_access_token_outcomes
            [where w = "token_world 200 (JObj [(ascii ''token_type'', JStr (ascii ''Bearer''))])"
               and r = "\<lparr>status_code = 200,
                  json_body = Some (JObj [(ascii ''token_type'', JStr (ascii ''Bearer''))])\<rparr>"
               and rs = "[]" and kvs = "[(ascii ''token_type'', JStr (ascii ''Bearer''))]"]
    by (simp add: token_world_def token_of_def ascii_def)
  from a b c show ?thesis by blast
qed

text \<open>
  The claim as stated fails at the status 300 (a choice of representations, with no
  \<open>Location\<close> to follow), which is not 2xx: the body is read and the token returned.
\<close>

theorem get_access_token_non_2xx_counterexample:
  "\<not> is_2xx 300
   \<and> snd (token_of (token_world 300 (JObj [(ascii ''access_token'', JStr (ascii ''tok''))])))
       = Inr (JStr (ascii ''tok''))
   \<and> snd (token_of (token_world 300 (JObj [(ascii ''access_token'', JStr (ascii ''tok''))])))
       \<noteq> Inl (HTTPError 300)"
  by (simp add: is_2xx_def token_of_def token_world_def get_access_token_def
        session_request_def Let_def raise_for_status_def response_json_def)

section \<open>The event count\<close>

lemma content_uri_ok_cases:
  assumes "content_uri_ok c"
  obtains v where "py_get c (ascii ''contentUri'') = Inr v" and "\<not> py_truthy v"
  | u where "py_get c (ascii ''contentUri'') = Inr (JStr u)" and "u \<noteq> []"
proof (cases "py_get c (ascii ''contentUri'')")
  case (Inl e)
  with assms show ?thesis by (simp add: content_uri_ok_def)
next
  case (Inr v)
  show ?thesis
  proof (cases "py_truthy v")
    case False
    with Inr that(1) show ?thesis by blast
  next
    case True
    with assms Inr obtain u where "v = JStr u"
      by (cases v) (simp_all add: content_uri_ok_def)
    with True Inr that(2) show ?thesis by simp
  qed
qed

lemma collect_loop_ok:
  assumes "list_all content_uri_ok entries"
      and "length blobs = length (filter carries_uri entries)"
      and "\<forall>bl\<in>set blobs. is_2xx (fst bl) \<and> list_all (writable w) (snd bl)"
      and "replies w = map fetched blobs @ rest"
      and "\<forall>i. can_open w (get_new_file_name b x i)"
      and "current_file_name st = get_new_file_name b x (file_index st)"
  shows "\<exists>w' st'. collect_loop s hs b x w st entries = (w', Inr st')
           \<and> total_logs st' = total_logs st + sum_list (map (\<lambda>bl. length (snd bl)) blobs)
           \<and> length (written w') = length (written w) + sum_list (map (\<lambda>bl. length (snd bl)) blobs)
           \<and> length (sent w') = length (sent w) + length blobs
           \<and> replies w' = rest
           \<and> st' = foldl (account b x) st (concat (map snd blobs))"
  using assms
proof (induction entries arbitrary: w st blobs)
  case Nil
  then show ?case by simp
next
  case (Cons c cs)
  from Cons.prems(1) have "content_uri_ok c" by simp
  then show ?case
  proof (cases rule: content_uri_ok_cases)
    case (1 v)
    then have nc: "\<not> carries_uri c" by (simp add: carries_uri_def)
    have "\<exists>w' st'. collect_loop s hs b x w st cs = (w', Inr st')
           \<and> total_logs st' = total_logs st + sum_list (map (\<lambda>bl. length (snd bl)) blobs)
           \<and> length (written w') = length (written w) + sum_list (map (\<lambda>bl. length (snd bl)) blobs)
           \<and> length (sent w') = length (sent w) + length blobs
           \<and> replies w' = rest
           \<and> st' = foldl (account b x) st (concat (map snd blobs))"
      using Cons.prems nc by (intro Cons.IH) simp_all
    then show ?thesis using 1 by simp
  next
    case (2 u)
    then have cc: "carries_uri c" by (simp add: carries_uri_def)
    then obtain bl bls where bl: "blobs = bl # bls" using Cons.prems(2) by (cases blobs) simp_all
    have ok: "is_2xx (fst bl)" and wr: "list_all (writable w) (snd bl)"
      using Cons.prems(3) bl by simp_all
    define r where "r = \<lparr>req_method = GET, req_url = u, req_headers = hs, req_params = [],
                    req_data = [], req_timeout = Some REQUEST_TIMEOUT\<rparr>"
    define w1 where "w1 = w\<lparr>replies := map fetched bls @ rest, sent := sent w @ [r]\<rparr>"
    define w2 where "w2 = w1\<lparr>opened := opened w1 @ [current_file_name st]\<rparr>"
    define w3 where "w3 = w2\<lparr>written := written w2
                       @ map (\<lambda>e. (current_file_name st, json_dumps e @ [10])) (snd bl)\<rparr>"
    define st3 where "st3 = foldl (account b x) st (snd bl)"
    have req: "session_request s w GET (JStr u) hs [] [] (Some REQUEST_TIMEOUT)
                 = (w1, Inr \<lparr>status_code = fst bl, json_body = Some (JArr (snd bl))\<rparr>)"
      using Cons.prems(4) by (simp add: session_request_def bl fetched_def w1_def r_def)
    have rfs: "raise_for_status \<lparr>status_code = fst bl, json_body = Some (JArr (snd bl))\<rparr> = Inr ()"
      using ok by (simp add: is_2xx_no_raise)
    have "can_open w1 (current_file_name st)"
      using Cons.prems(5,6) by (simp add: w1_def)
    then have po: "py_open w1 (current_file_name st) = (w2, Inr ())"
      by (simp add: py_open_ok w2_def)
    have "list_all (writable w2) (snd bl)" using wr by (simp add: w2_def w1_def)
    then have we: "write_events (current_file_name st) b x w2 st (snd bl) = (w3, Inr st3)"
      by (simp add: write_events_ok w3_def st3_def)
    have step: "collect_loop s hs b x w st (c # cs) = collect_loop s hs b x w3 st3 cs"
      using 2 by (simp add: req rfs response_json_def po we)
    have nm: "current_file_name st3 = get_new_file_name b x (file_index st3)"
      unfolding st3_def using Cons.prems(6) by (rule current_file_name_foldl)
    have "\<exists>w' st'. collect_loop s hs b x w3 st3 cs = (w', Inr st')
           \<and> total_logs st' = total_logs st3 + sum_list (map (\<lambda>bl. length (snd bl)) bls)
           \<and> length (written w') = length (written w3) + sum_list (map (\<lambda>bl. length (snd bl)) bls)
           \<and> length (sent w') = length (sent w3) + length bls
           \<and> replies w' = rest
           \<and> st' = foldl (account b x) st3 (concat (map snd bls))"
      using Cons.prems(1,2,3,5) cc bl nm
      by (intro Cons.IH) (simp_all add: w3_def w2_def w1_def)
    then obtain w' st' where run: "collect_loop s hs b x w3 st3 cs = (w', Inr st')"
      and tl: "total_logs st' = total_logs st3 + sum_list (map (\<lambda>bl. length (snd bl)) bls)"
      and wl: "length (written w') = length (written w3) + sum_list (map (\<lambda>bl. length (snd bl)) bls)"
      and sl: "length (sent w') = length (sent w3) + length bls"
      and rp: "replies w' = rest"
      and fs: "st' = foldl (account b x) st3 (concat (map snd bls))" by blast
    have whole: "collect_loop s hs b x w st (c # cs) = (w', Inr st')"
      by (simp only: step run)
    have tl': "total_logs st' = total_logs st + sum_list (map (\<lambda>bl. length (snd bl)) blobs)"
      using tl by (simp add: bl st3_def total_logs_foldl)
    have wl': "length (written w') = length (written w) + sum_list (map (\<lambda>bl. length (snd bl)) blobs)"
      using wl by (simp add: bl w3_def w2_def w1_def)
    have sl': "length (sent w') = length (sent w) + length blobs"
      using sl by (simp add: bl w3_def w2_def w1_def)
    have fs': "st' = foldl (account b x) st (concat (map snd blobs))"
      using fs by (simp add: bl st3_def)
    from whole tl' wl' sl' rp fs' show ?thesis by blast
  qed
qed

text \<open>
  C3. When the listing and every content fetch succeed, every file name of the run can
  be opened and every line can be encoded, \<open>collect_logs\<close> returns the total event
  count: the sum, over the listing entries that carry a content URI (in order, each with
  the array its fetch returns), of the number of events in that array. One line is
  written per counted event, whatever the file, and one fetch is issued per such entry.
\<close>

theorem collect_logs_returns_event_count:
  assumes "replies w = Answer r # map fetched blobs @ rest"
      and "is_2xx (status_code r)"
      and "json_body r = Some (JArr entries)"
      and "list_all content_uri_ok entries"
      and "length blobs = length (filter carries_uri entries)"
      and "\<forall>bl\<in>set blobs. is_2xx (fst bl) \<and> list_all (writable w) (snd bl)"
      and "\<forall>i. can_open w (get_new_file_name b x i)"
  shows "\<exists>w'. collect_logs s token tenant a e b x w
                = (w', Inr (sum_list (map (\<lambda>bl. length (snd bl)) blobs)))
           \<and> length (written w') = length (written w) + sum_list (map (\<lambda>bl. length (snd bl)) blobs)
           \<and> length (sent w') = length (sent w) + 1 + length blobs"
proof -
  define hs where "hs = [(ascii ''Authorization'', ascii ''Bearer '' @ token),
                     (ascii ''Accept'', ascii ''application/json'')]"
  define q where "q = \<lparr>req_method = GET,
      req_url = ascii ''https://manage.office.com/api/v1.0/'' @ tenant
                       @ ascii ''/activity/feed/subscriptions/content'',
      req_headers = hs,
      req_params = [(ascii ''contentType'', ascii ''Audit.AzureActiveDirectory''),
                    (ascii ''startTime'', a), (ascii ''endTime'', e)],
      req_data = [], req_timeout = Some REQUEST_TIMEOUT\<rparr>"
  define w1 where "w1 = w\<lparr>replies := map fetched blobs @ rest, sent := sent w @ [q]\<rparr>"
  have r1: "replies w1 = map fetched blobs @ rest" by (simp add: w1_def)
  have b1: "\<forall>bl\<in>set blobs. is_2xx (fst bl) \<and> list_all (writable w1) (snd bl)"
    using assms(6) by (simp add: w1_def)
  have o1: "\<forall>i. can_open w1 (get_new_file_name b x i)"
    using assms(7) by (simp add: w1_def)
  have n1: "current_file_name (start_state b x)
              = get_new_file_name b x (file_index (start_state b x))"
    by (simp add: start_state_def)
  from collect_loop_ok[OF assms(4,5) b1 r1 o1 n1, of s hs]
  obtain w' st' where run: "collect_loop s hs b x w1 (start_state b x) entries = (w', Inr st')"
    and tl: "total_logs st' = sum_list (map (\<lambda>bl. length (snd bl)) blobs)"
    and wl: "length (written w') = length (written w1) + sum_list (map (\<lambda>bl. length (snd bl)) blobs)"
    and sl: "length (sent w') = length (sent w1) + length blobs"
    by (auto simp: start_state_def)
  have "collect_logs s token tenant a e b x w = (w', Inr (total_logs st'))"
    using assms(1,3) is_2xx_no_raise[OF assms(2)] run
    by (simp add: collect_logs_def session_request_def Let_def response_json_def
          hs_def[symmetric] q_def[symmetric] w1_def[symmetric] start_state_def)
  with tl wl sl show ?thesis by (simp add: w1_def)
qed

theorem collect_logs_returns_event_count_witness:
  "length (filter carries_uri four_entries) = 2
   \<and> (\<exists>w'. collect_out two_blob_world = (w', Inr 3)
          \<and> length (written w') = 3 \<and> length (sent w') = 3)"
proof -
  let ?r = "\<lparr>status_code = 200, json_body = Some (JArr four_entries)\<rparr>"
  have h1: "replies two_blob_world = Answer ?r # map fetched two_blobs @ []"
    by (simp add: two_blob_world_def)
  have h2: "is_2xx (status_code ?r)" by (simp add: is_2xx_def)
  have h3: "json_body ?r = Some (JArr four_entries)" by simp
  have h4: "list_all content_uri_ok four_entries"
    by (simp add: four_entries_def content_uri_ok_def ascii_def)
  have h5: "length two_blobs = length (filter carries_uri four_entries)"
    by (simp add: two_blobs_def four_entries_def carries_uri_def ascii_def)
  have h6: "\<forall>bl\<in>set two_blobs. is_2xx (fst bl) \<and> list_all (writable two_blob_world) (snd bl)"
    by (simp add: two_blobs_def is_2xx_def writable_def small_event_def accented_event_def
          ascii_def encode_basestring_def escape_char_def two_blob_world_def utf8_def
          encodable_def)
  have h7: "\<forall>i. can_open two_blob_world (get_new_file_name (ascii ''out'') (ascii ''.json'') i)"
    by (simp add: can_open_def two_blob_world_def get_new_file_name_def ascii_def
          str_nat_no_nul)
  from collect_logs_returns_event_count[OF h1 h2 h3 h4 h5 h6 h7]
  obtain w' where "collect_out two_blob_world
                     = (w', Inr (sum_list (map (\<lambda>bl. length (snd bl)) two_blobs)))"
    and "length (written w') = length (written two_blob_world)
           + sum_list (map (\<lambda>bl. length (snd bl)) two_blobs)"
    and "length (sent w') = length (sent two_blob_world) + 1 + length two_blobs"
    unfolding collect_out_def by blast
  moreover have "sum_list (map (\<lambda>bl. length (snd bl)) two_blobs) = 3"
    by (simp add: two_blobs_def)
  moreover have "length two_blobs = 2" by (simp add: two_blobs_def)
  ultimately have "\<exists>w'. collect_out two_blob_world = (w', Inr 3)
          \<and> length (written w') = 3 \<and> length (sent w') = 3"
    by (simp add: two_blob_world_def)
  with h5 \<open>length two_blobs = 2\<close> show ?thesis by simp
qed

section \<open>The counter and the files\<close>

lemma counter_split:
  "\<exists>pre post. evs = pre @ post
     \<and> (pre = [] \<or> current_file_size (foldl (account b x) st pre) = 0)
     \<and> file_index (foldl (account b x) st evs) = file_index (foldl (account b x) st pre)
     \<and> current_file_size (foldl (account b x) st evs)
         = current_file_size (foldl (account b x) st pre) + sum_list (map line_size post)"
proof (induction evs rule: rev_induct)
  case Nil
  show ?case by simp
next
  case (snoc e evs)
  then obtain pre post where sp: "evs = pre @ post"
    and z: "pre = [] \<or> current_file_size (foldl (account b x) st pre) = 0"
    and i: "file_index (foldl (account b x) st evs) = file_index (foldl (account b x) st pre)"
    and c: "current_file_size (foldl (account b x) st evs)
         = current_file_size (foldl (account b x) st pre) + sum_list (map line_size post)"
    by blast
  let ?s = "foldl (account b x) st evs"
  show ?case
  proof (cases "current_file_size ?s + line_size e \<le> MAX_FILE_SIZE_MB * 1024 * 1024")
    case True
    have "evs @ [e] = pre @ (post @ [e])" using sp by simp
    moreover have "file_index (foldl (account b x) st (evs @ [e]))
                     = file_index (foldl (account b x) st pre)"
      using account_keep[OF True, of b x] i by simp
    moreover have "current_file_size (foldl (account b x) st (evs @ [e]))
         = current_file_size (foldl (account b x) st pre) + sum_list (map line_size (post @ [e]))"
      using account_keep[OF True, of b x] c by simp
    ultimately show ?thesis using z by blast
  next
    case False
    then have r: "MAX_FILE_SIZE_MB * 1024 * 1024 < current_file_size ?s + line_size e" by simp
    have "current_file_size (foldl (account b x) st (evs @ [e])) = 0"
      using account_reset[OF r, of b x] by simp
    then have "evs @ [e] = (evs @ [e]) @ []
      \<and> (evs @ [e] = [] \<or> current_file_size (foldl (account b x) st (evs @ [e])) = 0)
      \<and> file_index (foldl (account b x) st (evs @ [e]))
          = file_index (foldl (account b x) st (evs @ [e]))
      \<and> current_file_size (foldl (account b x) st (evs @ [e]))
         = current_file_size (foldl (account b x) st (evs @ [e])) + sum_list (map line_size [])"
      by simp
    then show ?thesis by blast
  qed
qed

lemma escape_plain:
  "32 \<le> c \<Longrightarrow> c \<noteq> 34 \<Longrightarrow> c \<noteq> 92 \<Longrightarrow> concat (map escape_char (replicate n c)) = replicate n c"
  by (induction n) (auto simp: escape_char_def)

lemma dumps_big:
  "json_dumps big_event = [123, 34, 97, 34, 58, 32, 34] @ replicate 524287991 120 @ [34, 125]"
  by (simp add: big_event_def ascii_def encode_basestring_def escape_plain escape_char_def)

lemma dumps_small: "json_dumps small_event = [123, 125]"
  by (simp add: small_event_def)

lemma dumps_accented: "json_dumps accented_event = [123, 34, 97, 34, 58, 32, 34, 233, 34, 125]"
  by (simp add: accented_event_def ascii_def encode_basestring_def escape_char_def)

lemma writable_big: "encoding w = utf8 \<Longrightarrow> writable w big_event"
  by (simp add: writable_def dumps_big utf8_def encodable_def list_all_iff)

lemma writable_small: "encoding w = utf8 \<Longrightarrow> writable w small_event"
  by (simp add: writable_def dumps_small utf8_def encodable_def)

lemma writable_accented: "encoding w = utf8 \<Longrightarrow> writable w accented_event"
  by (simp add: writable_def dumps_accented utf8_def encodable_def)

lemma utf8_ascii: "list_all (\<lambda>c. c < 128) s \<Longrightarrow> utf8_encode s = s"
  by (induction s) (simp_all add: utf8_encode_def utf8_char_def)

lemma utf8_bytes_ascii:
  "list_all (\<lambda>c. c < 128) s \<Longrightarrow>
   concat (map (\<lambda>c. case utf8 c of None \<Rightarrow> [] | Some bs \<Rightarrow> bs) s) = s"
  by (induction s) (simp_all add: utf8_def utf8_char_def encodable_def)

lemma file_bytes_ascii:
  "encoding w = utf8 \<Longrightarrow> list_all (\<lambda>c. c < 128) (file_text w n) \<Longrightarrow>
   file_bytes w n = file_text w n"
  by (simp add: file_bytes_def utf8_bytes_ascii)

lemma encoding_one_blob_world [simp]: "encoding (one_blob_world evs) = utf8"
  by (simp add: one_blob_world_def)

lemma encoding_no_world [simp]: "encoding no_world = utf8"
  by (simp add: no_world_def)

lemma written_no_world [simp]: "written no_world = []"
  by (simp add: no_world_def)

lemma out_0_no_nul: "0 \<notin> set (ascii ''out_0.json'')"
  by (simp add: ascii_def)

lemma name_out_0: "get_new_file_name (ascii ''out'') (ascii ''.json'') 0 = ascii ''out_0.json''"
  by (simp add: get_new_file_name_def ascii_def str_nat.simps)

lemma name_out_1:
  "get_new_file_name (ascii ''out'') (ascii ''.json'') (Suc 0) = ascii ''out_1.json''"
  by (simp add: get_new_file_name_def ascii_def str_nat.simps)

lemma run_one_blob:
  "list_all (writable (one_blob_world evs)) evs \<Longrightarrow> 0 \<notin> set (get_new_file_name b x 0) \<Longrightarrow>
   collect_logs s token tenant a e b x (one_blob_world evs) =
     (\<lparr>replies = [],
       sent = [\<lparr>req_method = GET,
                req_url = ascii ''https://manage.office.com/api/v1.0/'' @ tenant
                       @ ascii ''/activity/feed/subscriptions/content'',
                req_headers = [(ascii ''Authorization'', ascii ''Bearer '' @ token),
                     (ascii ''Accept'', ascii ''application/json'')],
                req_params = [(ascii ''contentType'', ascii ''Audit.AzureActiveDirectory''),
                    (ascii ''startTime'', a), (ascii ''endTime'', e)],
                req_data = [], req_timeout = Some 120\<rparr>,
               \<lparr>req_method = GET, req_url = ascii ''https://h/c'',
                req_headers = [(ascii ''Authorization'', ascii ''Bearer '' @ token),
                     (ascii ''Accept'', ascii ''application/json'')],
                req_params = [], req_data = [], req_timeout = Some 120\<rparr>],
       opened = [get_new_file_name b x 0],
       written = map (\<lambda>ev. (get_new_file_name b x 0, json_dumps ev @ [10])) evs,
       openable = (\<lambda>name. True), encoding = utf8\<rparr>,
      Inr (length evs))"
proof -
  assume wr: "list_all (writable (one_blob_world evs)) evs"
    and nn: "0 \<notin> set (get_new_file_name b x 0)"
  define w2 where "w2 =
      \<lparr>replies = [],
       sent = [\<lparr>req_method = GET,
                req_url = ascii ''https://manage.office.com/api/v1.0/'' @ tenant
                       @ ascii ''/activity/feed/subscriptions/content'',
                req_headers = [(ascii ''Authorization'', ascii ''Bearer '' @ token),
                     (ascii ''Accept'', ascii ''application/json'')],
                req_params = [(ascii ''contentType'', ascii ''Audit.AzureActiveDirectory''),
                    (ascii ''startTime'', a), (ascii ''endTime'', e)],
                req_data = [], req_timeout = Some 120\<rparr>,
               \<lparr>req_method = GET, req_url = ascii ''https://h/c'',
                req_headers = [(ascii ''Authorization'', ascii ''Bearer '' @ token),
                     (ascii ''Accept'', ascii ''application/json'')],
                req_params = [], req_data = [], req_timeout = Some 120\<rparr>],
       opened = [get_new_file_name b x 0],
       written = [],
       openable = (\<lambda>name. True), encoding = utf8\<rparr>"
  have "list_all (writable w2) evs"
    using wr by (simp add: writable_def w2_def list_all_iff)
  from write_events_ok[OF this, of "get_new_file_name b x 0" b x "start_state b x"]
  have we: "write_events (get_new_file_name b x 0) b x w2 (start_state b x) evs =
     (w2\<lparr>written := map (\<lambda>ev. (get_new_file_name b x 0, json_dumps ev @ [10])) evs\<rparr>,
      Inr (foldl (account b x) (start_state b x) evs))"
    by (simp add: w2_def)
  show ?thesis
    using nn
    by (simp add: collect_logs_def one_blob_world_def session_request_def Let_def
          raise_for_status_def response_json_def py_open_def total_logs_foldl
          REQUEST_TIMEOUT_def ascii_def
          we[unfolded w2_def start_state_def REQUEST_TIMEOUT_def ascii_def, simplified]
          start_state_def)
qed

lemma out_no_nul: "0 \<notin> set (get_new_file_name (ascii ''out'') (ascii ''.json'') i)"
  by (simp add: get_new_file_name_def ascii_def str_nat_no_nul)

text \<open>
  C10. In the loop over the events of a blob, started in any state, the events split
  into those up to the last reset of the counter and those after it (the file index
  changes exactly at a reset, and a reset leaves the counter at 0); the counter is then
  its value at that point plus, for each later event, the number of characters of its
  serialised JSON plus one. For the event with the letter U+00E9 the counter is 11 while
  12 bytes are appended to the file.
\<close>

theorem counter_counts_characters:
  assumes "write_events f b x w st evs = (w', Inr st')"
  shows "(\<exists>pre post w1 st1. evs = pre @ post
            \<and> write_events f b x w st pre = (w1, Inr st1)
            \<and> (pre = [] \<or> current_file_size st1 = 0)
            \<and> file_index st' = file_index st1
            \<and> current_file_size st'
                = current_file_size st1
                  + sum_list (map (\<lambda>e. length (json_dumps e) + 1) post))
       \<and> 233 \<in> set (json_dumps accented_event)
       \<and> (case write_events f b x no_world (start_state b x) [accented_event] of
             (w2, Inl err) \<Rightarrow> False
           | (w2, Inr st2) \<Rightarrow>
               current_file_size st2 = 11 \<and> length (file_bytes w2 f) = 12)"
proof -
  from write_events_Inr[OF assms] have wr: "list_all (writable w) evs"
    and st': "st' = foldl (account b x) st evs" by simp_all
  from counter_split[of evs b x st] obtain pre post where sp: "evs = pre @ post"
    and z: "pre = [] \<or> current_file_size (foldl (account b x) st pre) = 0"
    and i: "file_index (foldl (account b x) st evs) = file_index (foldl (account b x) st pre)"
    and c: "current_file_size (foldl (account b x) st evs)
         = current_file_size (foldl (account b x) st pre) + sum_list (map line_size post)"
    by blast
  have "list_all (writable w) pre" using wr sp by simp
  from write_events_ok[OF this, of f b x st]
  have "write_events f b x w st pre =
     (w\<lparr>written := written w @ map (\<lambda>e. (f, json_dumps e @ [10])) pre\<rparr>,
      Inr (foldl (account b x) st pre))" .
  moreover have "map line_size post = map (\<lambda>e. length (json_dumps e) + 1) post"
    by (simp add: line_size_def)
  ultimately have A: "\<exists>pre post w1 st1. evs = pre @ post
            \<and> write_events f b x w st pre = (w1, Inr st1)
            \<and> (pre = [] \<or> current_file_size st1 = 0)
            \<and> file_index st' = file_index st1
            \<and> current_file_size st'
                = current_file_size st1
                  + sum_list (map (\<lambda>e. length (json_dumps e) + 1) post)"
    using sp z i c st' by metis
  have B: "233 \<in> set (json_dumps accented_event)" by (simp add: dumps_accented)
  have C: "(case write_events f b x no_world (start_state b x) [accented_event] of
             (w2, Inl err) \<Rightarrow> False
           | (w2, Inr st2) \<Rightarrow>
               current_file_size st2 = 11 \<and> length (file_bytes w2 f) = 12)"
    by (simp add: file_write_def utf8_def encodable_def account_def Let_def
          start_state_def dumps_accented MAX_FILE_SIZE_MB_def no_world_def file_bytes_def
          file_text_def utf8_char_def)
  from A B C show ?thesis by blast
qed

theorem counter_counts_characters_witness:
  "write_events (ascii ''out_0.json'') (ascii ''out'') (ascii ''.json'') no_world
       (start_state (ascii ''out'') (ascii ''.json'')) [accented_event, small_event]
     = (no_world\<lparr>written := [(ascii ''out_0.json'', json_dumps accented_event @ [10]),
                              (ascii ''out_0.json'', json_dumps small_event @ [10])]\<rparr>,
        Inr \<lparr>file_index = 0, current_file_name = ascii ''out_0.json'',
             current_file_size = 14, total_logs = 2\<rparr>)
   \<and> (\<exists>pre post w1 st1. [accented_event, small_event] = pre @ post
         \<and> write_events (ascii ''out_0.json'') (ascii ''out'') (ascii ''.json'') no_world
               (start_state (ascii ''out'') (ascii ''.json'')) pre = (w1, Inr st1)
         \<and> (pre = [] \<or> current_file_size st1 = 0)
         \<and> 0 = file_index st1
         \<and> 14 = current_file_size st1 + sum_list (map (\<lambda>e. length (json_dumps e) + 1) post))"
proof -
  have h: "write_events (ascii ''out_0.json'') (ascii ''out'') (ascii ''.json'') no_world
       (start_state (ascii ''out'') (ascii ''.json'')) [accented_event, small_event]
     = (no_world\<lparr>written := [(ascii ''out_0.json'', json_dumps accented_event @ [10]),
                              (ascii ''out_0.json'', json_dumps small_event @ [10])]\<rparr>,
        Inr \<lparr>file_index = 0, current_file_name = ascii ''out_0.json'',
             current_file_size = 14, total_logs = 2\<rparr>)"
  proof -
    have wr: "list_all (writable no_world) [accented_event, small_event]"
      by (simp add: writable_accented writable_small)
    show ?thesis
      by (simp add: write_events_ok[OF wr] account_def Let_def start_state_def
            name_out_0 dumps_accented dumps_small MAX_FILE_SIZE_MB_def
            del: write_events.simps)
  qed
  from counter_counts_characters[OF h] h show ?thesis by simp
qed

text \<open>
  C1. One content blob of three events, each of 524288001 bytes with its newline, so
  that the first write already takes the counter over the limit of 524288000. The run
  returns 3, opens \<open>out_0.json\<close> only, and all 1572864003 bytes are in that file: more
  than the limit plus one event. The handle opened before the loop over the events
  (line 82) is the one written to until the blob ends; the rotation (lines 91-93) changes
  the name for the next \<open>open\<close> only.
\<close>

theorem rotation_keeps_writing_old_file:
  "snd (collect_out (one_blob_world [big_event, big_event, big_event])) = Inr 3
   \<and> opened (fst (collect_out (one_blob_world [big_event, big_event, big_event])))
       = [ascii ''out_0.json'']
   \<and> length (file_bytes (fst (collect_out (one_blob_world [big_event, big_event, big_event])))
               (ascii ''out_0.json'')) = 1572864003
   \<and> length (utf8_encode (json_dumps big_event @ [10])) = 524288001
   \<and> MAX_FILE_SIZE_MB * 1024 * 1024 = 524288000
   \<and> MAX_FILE_SIZE_MB * 1024 * 1024 + length (utf8_encode (json_dumps big_event @ [10]))
       < length (file_bytes (fst (collect_out (one_blob_world [big_event, big_event, big_event])))
                   (ascii ''out_0.json''))"
  by (simp add: collect_out_def run_one_blob writable_big out_no_nul out_0_no_nul name_out_0
        file_bytes_ascii file_text_def dumps_big utf8_ascii list_all_iff
        MAX_FILE_SIZE_MB_def)

text \<open>
  C2. One content blob of two events. The write of the first takes the counter to
  524288001, over the limit: the index becomes 1, the name \<open>out_1.json\<close>, the counter 0.
  The next event is then written to \<open>out_0.json\<close>, the file of the open handle, and
  \<open>out_1.json\<close> is never opened.
\<close>

theorem next_event_after_rotation_goes_to_old_file:
  "MAX_FILE_SIZE_MB * 1024 * 1024
     < current_file_size (start_state (ascii ''out'') (ascii ''.json'')) + line_size big_event
   \<and> account (ascii ''out'') (ascii ''.json'') (start_state (ascii ''out'') (ascii ''.json''))
        big_event
      = \<lparr>file_index = 1, current_file_name = ascii ''out_1.json'', current_file_size = 0,
         total_logs = 1\<rparr>
   \<and> snd (collect_out (one_blob_world [big_event, small_event])) = Inr 2
   \<and> written (fst (collect_out (one_blob_world [big_event, small_event])))
       = [(ascii ''out_0.json'', json_dumps big_event @ [10]),
          (ascii ''out_0.json'', json_dumps small_event @ [10])]
   \<and> opened (fst (collect_out (one_blob_world [big_event, small_event])))
       = [ascii ''out_0.json'']
   \<and> file_text (fst (collect_out (one_blob_world [big_event, small_event])))
        (ascii ''out_1.json'') = []"
proof -
  have a: "MAX_FILE_SIZE_MB * 1024 * 1024
     < current_file_size (start_state (ascii ''out'') (ascii ''.json'')) + line_size big_event"
    by (simp add: MAX_FILE_SIZE_MB_def start_state_def line_size_def dumps_big)
  have b: "account (ascii ''out'') (ascii ''.json'')
        (start_state (ascii ''out'') (ascii ''.json'')) big_event
      = \<lparr>file_index = 1, current_file_name = ascii ''out_1.json'', current_file_size = 0,
         total_logs = 1\<rparr>"
    by (simp add: account_def start_state_def dumps_big MAX_FILE_SIZE_MB_def Let_def name_out_1)
  have c: "collect_out (one_blob_world [big_event, small_event])
      = (\<lparr>replies = [], sent = sent (fst (collect_out (one_blob_world [big_event, small_event]))),
          opened = [ascii ''out_0.json''],
          written = [(ascii ''out_0.json'', json_dumps big_event @ [10]),
                     (ascii ''out_0.json'', json_dumps small_event @ [10])],
          openable = (\<lambda>name. True), encoding = utf8\<rparr>, Inr 2)"
    by (simp add: collect_out_def run_one_blob writable_big writable_small out_no_nul
          out_0_no_nul name_out_0)
  have d: "ascii ''out_0.json'' \<noteq> ascii ''out_1.json''" by (simp add: ascii_def)
  have "file_text (fst (collect_out (one_blob_world [big_event, small_event])))
        (ascii ''out_1.json'') = []"
    by (subst c) (simp add: file_text_def d)
  moreover have "snd (collect_out (one_blob_world [big_event, small_event])) = Inr 2"
    by (subst c) simp
  moreover have "written (fst (collect_out (one_blob_world [big_event, small_event])))
       = [(ascii ''out_0.json'', json_dumps big_event @ [10]),
          (ascii ''out_0.json'', json_dumps small_event @ [10])]"
    by (subst c) simp
  moreover have "opened (fst (collect_out (one_blob_world [big_event, small_event])))
       = [ascii ''out_0.json'']"
    by (subst c) simp
  ultimately show ?thesis using a b by blast
qed

section \<open>What is written parses back\<close>

lemma skip_ws_Nil [simp]: "skip_ws [] = []"
  by (simp add: skip_ws_def)

lemma skip_ws_Cons: "skip_ws (c # s) = (if is_ws c then skip_ws s else c # s)"
  by (simp add: skip_ws_def)

lemma skip_ws_not_ws: "\<not> is_ws c \<Longrightarrow> skip_ws (c # s) = c # s"
  by (simp add: skip_ws_Cons)

lemma skip_ws_space [simp]: "skip_ws (32 # s) = skip_ws s"
  by (simp add: skip_ws_Cons is_ws_def)

lemma skip_ws_newline [simp]: "skip_ws (10 # s) = skip_ws s"
  by (simp add: skip_ws_Cons is_ws_def)

subsection \<open>Strings\<close>

lemma hex_value_hex_digit: "d < 16 \<Longrightarrow> hex_value (hex_digit d) = Some d"
  by (auto simp: hex_value_def hex_digit_def)

lemma decode_control:
  "c < 32 \<Longrightarrow> decode_uXXXX (48 # 48 # hex_digit (c div 16) # hex_digit (c mod 16) # t) = Some c"
proof -
  assume c: "c < 32"
  then have "c div 16 < 16" by simp
  moreover have "c mod 16 < 16" by simp
  moreover have "hex_value 48 = Some 0" by (simp add: hex_value_def)
  ultimately show ?thesis
    by (simp add: decode_uXXXX_def hex_value_hex_digit)
qed

lemma next_char_escape: "next_char (escape_char c @ t) = Some (c, t)"
proof (cases "c < 32")
  case True
  then show ?thesis
    by (auto simp: escape_char_def next_char_def unescape_def decode_control)
next
  case False
  then show ?thesis
    by (auto simp: escape_char_def next_char_def unescape_def)
qed

lemma escape_char_head: "escape_char c @ t \<noteq> [] \<and> hd (escape_char c @ t) \<noteq> 34"
  by (auto simp: escape_char_def)

lemma scanstring_quote: "scanstring (34 # t) = Some ([], t)"
  by (subst scanstring.simps) simp

lemma scanstring_step:
  "next_char s = Some (c, r) \<Longrightarrow> s \<noteq> [] \<Longrightarrow> hd s \<noteq> 34 \<Longrightarrow> scanstring s = put c (scanstring r)"
  by (subst scanstring.simps) (auto split: list.splits)

lemma scanstring_escaped: "scanstring (concat (map escape_char s) @ 34 # t) = Some (s, t)"
proof (induction s)
  case Nil
  show ?case by (simp add: scanstring_quote)
next
  case (Cons c s)
  have "scanstring (escape_char c @ (concat (map escape_char s) @ 34 # t))
          = put c (scanstring (concat (map escape_char s) @ 34 # t))"
    using escape_char_head[of c "concat (map escape_char s) @ 34 # t"]
    by (intro scanstring_step next_char_escape) simp_all
  with Cons show ?case by (simp add: put_def)
qed

lemma scanstring_encoded:
  "encode_basestring s @ t = 34 # u \<Longrightarrow> scanstring u = Some (s, t)"
  by (auto simp: encode_basestring_def scanstring_escaped)

subsection \<open>Numbers\<close>

lemma str_nat_small: "n < 10 \<Longrightarrow> str_nat n = [48 + n]"
  by (subst str_nat.simps) simp

lemma str_nat_large: "\<not> n < 10 \<Longrightarrow> str_nat n = str_nat (n div 10) @ [48 + n mod 10]"
  by (subst str_nat.simps) simp

lemma str_nat_digits: "list_all is_digit (str_nat n)"
proof (induction n rule: str_nat.induct)
  case (1 n)
  show ?case
  proof (cases "n < 10")
    case True
    then show ?thesis by (simp add: str_nat_small is_digit_def)
  next
    case False
    have "n mod 10 < 10" by simp
    then have "is_digit (48 + n mod 10)" unfolding is_digit_def by linarith
    with 1 False show ?thesis by (simp add: str_nat_large)
  qed
qed

lemma str_nat_nonempty: "str_nat n \<noteq> []"
  by (cases "n < 10") (simp_all add: str_nat_small str_nat_large)

lemma str_nat_head: "0 < n \<Longrightarrow> hd (str_nat n) \<noteq> 48"
proof (induction n rule: str_nat.induct)
  case (1 n)
  show ?case
  proof (cases "n < 10")
    case True
    with 1 show ?thesis by (simp add: str_nat_small)
  next
    case False
    then have "0 < n div 10" by simp
    with 1 False have "hd (str_nat (n div 10)) \<noteq> 48" by simp
    with False show ?thesis by (simp add: str_nat_large str_nat_nonempty)
  qed
qed

lemma nat_of_digits_snoc: "nat_of_digits (ds @ [d]) = nat_of_digits ds * 10 + (d - 48)"
  by (simp add: nat_of_digits_def)

lemma nat_of_digits_str_nat: "nat_of_digits (str_nat n) = n"
proof (induction n rule: str_nat.induct)
  case (1 n)
  show ?case
  proof (cases "n < 10")
    case True
    then show ?thesis by (simp add: str_nat_small nat_of_digits_def)
  next
    case False
    with 1 show ?thesis by (simp add: str_nat_large nat_of_digits_snoc)
  qed
qed

lemma takeWhile_digits:
  "list_all is_digit ds \<Longrightarrow> ok_rest t \<Longrightarrow> takeWhile is_digit (ds @ t) = ds"
  by (cases t) (auto simp: ok_rest_def is_digit_def list_all_iff
        intro!: takeWhile_eq_all_conv[THEN iffD2] split: if_splits)

lemma dropWhile_digits:
  "list_all is_digit ds \<Longrightarrow> ok_rest t \<Longrightarrow> dropWhile is_digit (ds @ t) = t"
  by (cases t) (auto simp: ok_rest_def is_digit_def list_all_iff dropWhile_append3
        dropWhile_append)

lemma ok_rest_no_float: "ok_rest t \<Longrightarrow> \<not> is_float_tail t"
  by (auto simp: ok_rest_def is_float_tail_def split: list.splits)

lemma scan_int_str_nat: "ok_rest t \<Longrightarrow> scan_int (str_nat n @ t) = Some (n, t)"
proof (cases "n = 0")
  case True
  then show ?thesis by (simp add: str_nat_small scan_int_def)
next
  case False
  assume ok: "ok_rest t"
  from False have h: "hd (str_nat n) \<noteq> 48" by (simp add: str_nat_head)
  obtain c cs where cs: "str_nat n = c # cs"
    using str_nat_nonempty[of n] by (cases "str_nat n") auto
  have d: "is_digit c" using str_nat_digits[of n] cs by simp
  have c48: "c \<noteq> 48" using h cs by simp
  have tw: "takeWhile is_digit (c # cs @ t) = c # cs"
    using takeWhile_digits[OF str_nat_digits ok, of n] cs by simp
  have dw: "dropWhile is_digit (c # cs @ t) = t"
    using dropWhile_digits[OF str_nat_digits ok, of n] cs by simp
  have nd: "nat_of_digits (c # cs) = n"
    using nat_of_digits_str_nat[of n] cs by simp
  have "scan_int (c # cs @ t) = Some (nat_of_digits (takeWhile is_digit (c # cs @ t)),
                                      dropWhile is_digit (c # cs @ t))"
    using c48 d by (simp add: scan_int_def del: takeWhile.simps dropWhile.simps)
  then show ?thesis by (simp only: tw dw nd cs append_Cons)
qed

lemma scan_number_str_int: "ok_rest t \<Longrightarrow> scan_number (str_int i @ t) = Some (JInt i, t)"
proof (cases "i < 0")
  case True
  assume ok: "ok_rest t"
  from True show ?thesis
    by (simp add: str_int_def scan_number_def scan_int_str_nat[OF ok] ok_rest_no_float[OF ok])
next
  case False
  assume ok: "ok_rest t"
  obtain c cs where cs: "str_nat (nat i) = c # cs"
    using str_nat_nonempty[of "nat i"] by (cases "str_nat (nat i)") auto
  have "is_digit c" using str_nat_digits[of "nat i"] cs by simp
  then have c: "c \<noteq> 45" by (auto simp: is_digit_def)
  have "scan_int ((c # cs) @ t) = Some (nat i, t)"
    using scan_int_str_nat[OF ok, of "nat i"] cs by simp
  with False c show ?thesis
    by (simp add: str_int_def scan_number_def cs ok_rest_no_float[OF ok])
qed

subsection \<open>The first character of a serialised value\<close>

lemma value_head_not_ws: "value_head c \<Longrightarrow> \<not> is_ws c"
  by (auto simp: value_head_def is_ws_def is_digit_def)

lemma str_int_head: "\<exists>c cs. str_int i = c # cs \<and> (c = 45 \<or> is_digit c)"
proof (cases "i < 0")
  case True
  then show ?thesis by (simp add: str_int_def)
next
  case False
  obtain c cs where cs: "str_nat (nat i) = c # cs"
    using str_nat_nonempty[of "nat i"] by (cases "str_nat (nat i)") auto
  have "is_digit c" using str_nat_digits[of "nat i"] cs by simp
  with False cs show ?thesis by (simp add: str_int_def)
qed

lemma dumps_head: "\<exists>c cs. json_dumps v = c # cs \<and> value_head c"
proof (cases v)
  case (JInt i)
  from str_int_head[of i] show ?thesis by (auto simp: JInt value_head_def)
qed (auto simp: value_head_def ascii_def encode_basestring_def)

lemma skip_ws_dumps: "skip_ws (json_dumps v @ t) = json_dumps v @ t"
proof -
  from dumps_head[of v] obtain c cs where "json_dumps v = c # cs" "value_head c" by blast
  then show ?thesis by (simp add: skip_ws_not_ws value_head_not_ws)
qed

lemma join_Cons: "xs \<noteq> [] \<Longrightarrow> join sep (x # xs) = x @ sep @ join sep xs"
  by (cases xs) simp_all

subsection \<open>Values that are not containers\<close>

lemma value_step_null: "value_step arr obj (ascii ''null'' @ t) = Some (JNull, t)"
  by (simp add: value_step_def ascii_def)

lemma value_step_true: "value_step arr obj (ascii ''true'' @ t) = Some (JBool True, t)"
  by (simp add: value_step_def ascii_def)

lemma value_step_false: "value_step arr obj (ascii ''false'' @ t) = Some (JBool False, t)"
  by (simp add: value_step_def ascii_def)

lemma value_step_str: "value_step arr obj (encode_basestring s @ t) = Some (JStr s, t)"
  by (simp add: value_step_def encode_basestring_def scanstring_escaped)

lemma value_step_int:
  assumes "ok_rest t"
  shows "value_step arr obj (str_int i @ t) = Some (JInt i, t)"
proof -
  from str_int_head[of i] obtain c cs where cs: "str_int i = c # cs"
    and c: "c = 45 \<or> is_digit c" by blast
  have n: "c \<noteq> 34" "c \<noteq> 123" "c \<noteq> 91" "c \<noteq> 110" "c \<noteq> 116" "c \<noteq> 102"
    using c by (auto simp: is_digit_def)
  have "value_step arr obj (c # cs @ t) = scan_number (c # cs @ t)"
    using n by (auto simp: value_step_def ascii_def)
  also have "\<dots> = Some (JInt i, t)"
    using scan_number_str_int[OF assms, of i] cs by simp
  finally show ?thesis by (simp add: cs)
qed

subsection \<open>Arrays\<close>

lemma join_dumps_head:
  "xs \<noteq> [] \<Longrightarrow> \<exists>c cs. join sep (map json_dumps xs) @ t = c # cs \<and> value_head c"
proof -
  assume "xs \<noteq> []"
  then obtain x ys where xs: "xs = x # ys" by (cases xs) auto
  from dumps_head[of x] obtain c cs where "json_dumps x = c # cs" "value_head c" by blast
  then show ?thesis by (cases ys) (auto simp: xs)
qed

lemma parse_array_items:
  assumes "\<And>x n t. x \<in> set xs \<Longrightarrow> need x \<le> n \<Longrightarrow> ok_rest t
              \<Longrightarrow> parse_value n (json_dumps x @ t) = Some (x, t)"
      and "xs \<noteq> []"
      and "sum_list (map (\<lambda>x. Suc (need x)) xs) \<le> n"
  shows "parse_array n (join (ascii '', '') (map json_dumps xs) @ 93 # t) = Some (xs, t)"
  using assms
proof (induction xs arbitrary: n)
  case Nil
  then show ?case by simp
next
  case (Cons x xs)
  from Cons.prems(3) obtain m where n: "n = Suc m" by (cases n) auto
  have nx: "need x \<le> m" using Cons.prems(3) n by simp
  show ?case
  proof (cases "xs = []")
    case True
    have ok: "ok_rest (93 # t)" by (simp add: ok_rest_def)
    have "parse_value m (json_dumps x @ 93 # t) = Some (x, 93 # t)"
      using Cons.prems(1)[OF _ nx ok] by simp
    then show ?thesis
      by (simp add: True n array_step_def skip_ws_not_ws is_ws_def)
  next
    case False
    let ?J = "join (ascii '', '') (map json_dumps xs)"
    have ok: "ok_rest (44 # 32 # ?J @ 93 # t)" by (simp add: ok_rest_def)
    have pv: "parse_value m (json_dumps x @ 44 # 32 # ?J @ 93 # t)
                = Some (x, 44 # 32 # ?J @ 93 # t)"
      using Cons.prems(1)[OF _ nx ok] by simp
    from join_dumps_head[OF False, of "ascii '', ''" "93 # t"] obtain c cs
      where h: "?J @ 93 # t = c # cs" "value_head c" by blast
    then have sk: "skip_ws (?J @ 93 # t) = ?J @ 93 # t"
      by (simp add: skip_ws_not_ws value_head_not_ws)
    have sm: "sum_list (map (\<lambda>x. Suc (need x)) xs) \<le> m" using Cons.prems(3) n by simp
    have ih: "parse_array m (?J @ 93 # t) = Some (xs, t)"
      using Cons.prems(1) False sm by (intro Cons.IH) simp_all
    have tx: "join (ascii '', '') (map json_dumps (x # xs)) @ 93 # t
                = json_dumps x @ 44 # 32 # ?J @ 93 # t"
      using False by (simp add: join_Cons ascii_def)
    show ?thesis
      unfolding tx n
      by (simp add: array_step_def pv skip_ws_not_ws is_ws_def sk ih)
  qed
qed

lemma value_step_array:
  assumes "\<And>x n t. x \<in> set xs \<Longrightarrow> need x \<le> n \<Longrightarrow> ok_rest t
              \<Longrightarrow> parse_value n (json_dumps x @ t) = Some (x, t)"
      and "need (JArr xs) \<le> Suc n"
  shows "parse_value (Suc n) (json_dumps (JArr xs) @ t) = Some (JArr xs, t)"
proof (cases "xs = []")
  case True
  then show ?thesis by (simp add: value_step_def skip_ws_not_ws is_ws_def)
next
  case False
  let ?J = "join (ascii '', '') (map json_dumps xs)"
  from join_dumps_head[OF False, of "ascii '', ''" "93 # t"] obtain c cs
    where h: "?J @ 93 # t = c # cs" "value_head c" by blast
  have c: "c \<noteq> 93" "\<not> is_ws c" using h(2) by (auto simp: value_head_def is_digit_def is_ws_def)
  have sm: "sum_list (map (\<lambda>x. Suc (need x)) xs) \<le> n" using assms(2) by simp
  have pa: "parse_array n (c # cs) = Some (xs, t)"
    using parse_array_items[OF assms(1) False sm, of t] h(1) by simp
  show ?thesis
    using c by (simp add: value_step_def h(1) skip_ws_not_ws pa)
qed

subsection \<open>Objects\<close>

lemma item_Cons: "item kv = 34 # concat (map escape_char (fst kv)) @ 34 # 58 # 32 # json_dumps (snd kv)"
  by (simp add: item_def encode_basestring_def ascii_def)

lemma join_item_head:
  "kvs \<noteq> [] \<Longrightarrow> \<exists>u. join sep (map item kvs) @ t = 34 # u"
proof -
  assume "kvs \<noteq> []"
  then obtain kv ys where "kvs = kv # ys" by (cases kvs) auto
  then show ?thesis by (cases ys) (auto simp: item_Cons)
qed

lemma parse_object_items:
  assumes "\<And>kv n t. kv \<in> set kvs \<Longrightarrow> need (snd kv) \<le> n \<Longrightarrow> ok_rest t
              \<Longrightarrow> parse_value n (json_dumps (snd kv) @ t) = Some (snd kv, t)"
      and "kvs \<noteq> []"
      and "sum_list (map (\<lambda>kv. Suc (need (snd kv))) kvs) \<le> n"
      and "34 # u = join (ascii '', '') (map item kvs) @ 125 # t"
  shows "parse_object n u = Some (kvs, t)"
  using assms
proof (induction kvs arbitrary: n u)
  case Nil
  then show ?case by simp
next
  case (Cons kv kvs)
  from Cons.prems(3) obtain m where n: "n = Suc m" by (cases n) auto
  have nx: "need (snd kv) \<le> m" using Cons.prems(3) n by simp
  obtain k v where kv: "kv = (k, v)" by (cases kv)
  show ?case
  proof (cases "kvs = []")
    case True
    have ik: "item (k, v) = 34 # concat (map escape_char k) @ 34 # 58 # 32 # json_dumps v"
      by (simp add: item_Cons)
    have "34 # u = item (k, v) @ 125 # t"
      using Cons.prems(4) by (simp add: True kv)
    then have u: "u = concat (map escape_char k) @ 34 # 58 # 32 # json_dumps v @ 125 # t"
      unfolding ik by simp
    have ok: "ok_rest (125 # t)" by (simp add: ok_rest_def)
    have pv: "parse_value m (json_dumps v @ 125 # t) = Some (v, 125 # t)"
      using Cons.prems(1)[of kv m "125 # t"] nx ok by (simp add: kv)
    show ?thesis
      unfolding u n
      by (simp add: object_step_def scanstring_escaped skip_ws_not_ws is_ws_def skip_ws_dumps
            pv True kv)
  next
    case False
    let ?J = "join (ascii '', '') (map item kvs)"
    from join_item_head[OF False, of "ascii '', ''" "125 # t"] obtain u' where
      u': "?J @ 125 # t = 34 # u'" by blast
    have ik: "item (k, v) = 34 # concat (map escape_char k) @ 34 # 58 # 32 # json_dumps v"
      by (simp add: item_Cons)
    have "34 # u = item (k, v) @ 44 # 32 # ?J @ 125 # t"
      using Cons.prems(4) False by (simp add: join_Cons kv ascii_def)
    then have u: "u = concat (map escape_char k) @ 34 # 58 # 32 # json_dumps v @ 44 # 32 # 34 # u'"
      unfolding u' ik by simp
    have ok: "ok_rest (44 # 32 # 34 # u')" by (simp add: ok_rest_def)
    have pv: "parse_value m (json_dumps v @ 44 # 32 # 34 # u') = Some (v, 44 # 32 # 34 # u')"
      using Cons.prems(1)[of kv m "44 # 32 # 34 # u'"] nx ok by (simp add: kv)
    have sm: "sum_list (map (\<lambda>kv. Suc (need (snd kv))) kvs) \<le> m"
      using Cons.prems(3) n by simp
    have ih: "parse_object m u' = Some (kvs, t)"
      using Cons.prems(1) False sm u' by (intro Cons.IH) simp_all
    show ?thesis
      unfolding u n
      by (simp add: object_step_def scanstring_escaped skip_ws_not_ws is_ws_def skip_ws_dumps
            pv ih kv)
  qed
qed

lemma dict_set_new: "k \<notin> set (map fst d) \<Longrightarrow> dict_set d k v = d @ [(k, v)]"
  by (simp add: dict_set_def)

lemma py_dict_distinct_aux:
  "distinct (map fst (d @ kvs)) \<Longrightarrow>
   foldl (\<lambda>d a. dict_set d (fst a) (snd a)) d kvs = d @ kvs"
proof (induction kvs arbitrary: d)
  case Nil
  show ?case by simp
next
  case (Cons kv kvs)
  have "fst kv \<notin> set (map fst d)" using Cons.prems by auto
  then have "dict_set d (fst kv) (snd kv) = d @ [kv]" by (simp add: dict_set_new)
  moreover have "distinct (map fst ((d @ [kv]) @ kvs))" using Cons.prems by simp
  ultimately show ?case using Cons.IH[of "d @ [kv]"] by simp
qed

lemma py_dict_distinct: "distinct (map fst kvs) \<Longrightarrow> py_dict kvs = kvs"
  using py_dict_distinct_aux[of "[]" kvs] by (simp add: py_dict_def)

lemma value_step_object:
  assumes "\<And>kv n t. kv \<in> set kvs \<Longrightarrow> need (snd kv) \<le> n \<Longrightarrow> ok_rest t
              \<Longrightarrow> parse_value n (json_dumps (snd kv) @ t) = Some (snd kv, t)"
      and "need (JObj kvs) \<le> Suc n"
      and "distinct (map fst kvs)"
  shows "parse_value (Suc n) (json_dumps (JObj kvs) @ t) = Some (JObj kvs, t)"
proof (cases "kvs = []")
  case True
  then show ?thesis by (simp add: value_step_def skip_ws_not_ws is_ws_def)
next
  case False
  let ?J = "join (ascii '', '') (map item kvs)"
  from join_item_head[OF False, of "ascii '', ''" "125 # t"] obtain u where
    u: "?J @ 125 # t = 34 # u" by blast
  have sm: "sum_list (map (\<lambda>kv. Suc (need (snd kv))) kvs) \<le> n" using assms(2) by simp
  have po: "parse_object n u = Some (kvs, t)"
    using parse_object_items[OF assms(1) False sm u[symmetric]] by simp
  have tx: "json_dumps (JObj kvs) @ t = 123 # 34 # u"
    using u by (simp add: item_def[abs_def])
  show ?thesis
    unfolding tx
    by (simp add: value_step_def skip_ws_not_ws is_ws_def po py_dict_distinct[OF assms(3)])
qed

subsection \<open>Every well-formed value\<close>

lemma parse_value_dumps:
  "wf_json v \<Longrightarrow> need v \<le> n \<Longrightarrow> ok_rest t \<Longrightarrow> parse_value n (json_dumps v @ t) = Some (v, t)"
proof (induction v arbitrary: n t)
  case JNull
  then obtain m where "n = Suc m" by (cases n) auto
  then show ?case by (simp add: value_step_null)
next
  case (JBool b)
  then obtain m where "n = Suc m" by (cases n) auto
  then show ?case by (cases b) (simp_all add: value_step_true value_step_false)
next
  case (JInt i)
  then obtain m where "n = Suc m" by (cases n) auto
  with JInt show ?case by (simp add: value_step_int)
next
  case (JStr s)
  then obtain m where "n = Suc m" by (cases n) auto
  then show ?case by (simp add: value_step_str)
next
  case (JArr xs)
  from JArr.prems(2) obtain m where n: "n = Suc m" by (cases n) auto
  have ih: "\<And>x n t. x \<in> set xs \<Longrightarrow> need x \<le> n \<Longrightarrow> ok_rest t
              \<Longrightarrow> parse_value n (json_dumps x @ t) = Some (x, t)"
    using JArr.IH JArr.prems(1) by (simp add: list_all_iff)
  show ?case
    unfolding n using JArr.prems(2) by (intro value_step_array ih) (simp_all add: n)
next
  case (JObj kvs)
  from JObj.prems(2) obtain m where n: "n = Suc m" by (cases n) auto
  have ih: "\<And>kv n t. kv \<in> set kvs \<Longrightarrow> need (snd kv) \<le> n \<Longrightarrow> ok_rest t
              \<Longrightarrow> parse_value n (json_dumps (snd kv) @ t) = Some (snd kv, t)"
  proof -
    fix kv n t
    assume a: "kv \<in> set kvs" "need (snd kv) \<le> n" "ok_rest t"
    have "snd kv \<in> Basic_BNFs.snds kv" by (rule snds.intros)
    moreover have "wf_json (snd kv)" using JObj.prems(1) a(1) by (simp add: list_all_iff)
    ultimately show "parse_value n (json_dumps (snd kv) @ t) = Some (snd kv, t)"
      using JObj.IH[OF a(1)] a(2,3) by blast
  qed
  have d: "distinct (map fst kvs)" using JObj.prems(1) by simp
  show ?case
    unfolding n using JObj.prems(2) d by (intro value_step_object ih) (simp_all add: n)
qed

subsection \<open>Enough fuel\<close>

lemma sum_need_join:
  "(\<And>x. x \<in> set xs \<Longrightarrow> g x \<le> length (f x)) \<Longrightarrow> 0 < length sep \<Longrightarrow>
   sum_list (map (\<lambda>x. Suc (g x)) xs) \<le> length (join sep (map f xs)) + 1"
proof (induction xs)
  case Nil
  show ?case by simp
next
  case (Cons x xs)
  show ?case
  proof (cases "xs = []")
    case True
    with Cons.prems(1)[of x] show ?thesis by simp
  next
    case False
    have A: "sum_list (map (\<lambda>x. Suc (g x)) xs) \<le> length (join sep (map f xs)) + 1"
      using Cons.prems by (intro Cons.IH) simp_all
    have B: "g x \<le> length (f x)" using Cons.prems(1)[of x] by simp
    have eq: "length (join sep (map f (x # xs)))
                = length (f x) + length sep + length (join sep (map f xs))"
      using False by (simp add: join_Cons)
    have s: "sum_list (map (\<lambda>x. Suc (g x)) (x # xs))
                = Suc (g x) + sum_list (map (\<lambda>x. Suc (g x)) xs)" by simp
    from A B Cons.prems(2) show ?thesis unfolding s eq by linarith
  qed
qed

lemma need_le_length: "need v \<le> length (json_dumps v)"
proof (induction v)
  case (JInt i)
  from str_int_head[of i] show ?case by auto
next
  case (JArr xs)
  have "sum_list (map (\<lambda>x. Suc (need x)) xs)
          \<le> length (join (ascii '', '') (map json_dumps xs)) + 1"
    using JArr.IH by (intro sum_need_join) (simp_all add: ascii_def)
  then show ?case by simp
next
  case (JObj kvs)
  have "\<And>kv. kv \<in> set kvs \<Longrightarrow> need (snd kv) \<le> length (item kv)"
  proof -
    fix kv assume "kv \<in> set kvs"
    moreover have "snd kv \<in> Basic_BNFs.snds kv" by (rule snds.intros)
    ultimately have "need (snd kv) \<le> length (json_dumps (snd kv))" using JObj.IH by blast
    then show "need (snd kv) \<le> length (item kv)" by (simp add: item_def)
  qed
  then have "sum_list (map (\<lambda>kv. Suc (need (snd kv))) kvs)
          \<le> length (join (ascii '', '') (map item kvs)) + 1"
    by (intro sum_need_join) (simp_all add: ascii_def)
  then show ?case by (simp add: item_def[abs_def])
qed (simp_all add: ascii_def encode_basestring_def)

lemma json_loads_line: "wf_json v \<Longrightarrow> json_loads (json_dumps v @ [10]) = Some v"
proof -
  assume wf: "wf_json v"
  have "need v \<le> length (json_dumps v @ [10])" using need_le_length[of v] by simp
  moreover have "ok_rest [10]" by (simp add: ok_rest_def)
  ultimately have "parse_value (length (json_dumps v @ [10])) (json_dumps v @ [10]) = Some (v, [10])"
    using wf by (rule parse_value_dumps[rotated])
  then show ?thesis
    by (simp add: json_loads_def skip_ws_dumps del: length_append)
qed

lemma json_loads_dumps: "wf_json v \<Longrightarrow> json_loads (json_dumps v) = Some v"
proof -
  assume wf: "wf_json v"
  have "ok_rest []" by (simp add: ok_rest_def)
  with wf need_le_length[of v]
  have "parse_value (length (json_dumps v)) (json_dumps v @ []) = Some (v, [])"
    by (intro parse_value_dumps)
  then show ?thesis
    using skip_ws_dumps[of v "[]"] by (simp add: json_loads_def)
qed

subsection \<open>One line per event\<close>

lemma escape_char_no_newline: "10 \<notin> set (escape_char c)"
  by (auto simp: escape_char_def hex_digit_def)

lemma str_nat_no_newline: "10 \<notin> set (str_nat n)"
  using str_nat_digits[of n] by (auto simp: list_all_iff is_digit_def)

lemma join_no_newline:
  "10 \<notin> set sep \<Longrightarrow> (\<And>y. y \<in> set ys \<Longrightarrow> 10 \<notin> set y) \<Longrightarrow> 10 \<notin> set (join sep ys)"
  by (induction sep ys rule: join.induct) auto

lemma dumps_no_newline: "10 \<notin> set (json_dumps v)"
proof (induction v)
  case (JInt i)
  show ?case using str_nat_no_newline by (simp add: str_int_def)
next
  case (JStr s)
  show ?case using escape_char_no_newline by (auto simp: encode_basestring_def)
next
  case (JArr xs)
  have "10 \<notin> set (join (ascii '', '') (map json_dumps xs))"
    using JArr.IH by (intro join_no_newline) (auto simp: ascii_def)
  then show ?case by simp
next
  case (JObj kvs)
  have "\<And>kv. kv \<in> set kvs \<Longrightarrow> 10 \<notin> set (item kv)"
  proof -
    fix kv assume "kv \<in> set kvs"
    moreover have "snd kv \<in> Basic_BNFs.snds kv" by (rule snds.intros)
    ultimately have "10 \<notin> set (json_dumps (snd kv))" using JObj.IH by blast
    then show "10 \<notin> set (item kv)"
      using escape_char_no_newline by (auto simp: item_def encode_basestring_def ascii_def)
  qed
  then have "10 \<notin> set (join (ascii '', '') (map item kvs))"
    by (intro join_no_newline) (auto simp: ascii_def)
  then show ?case by (simp add: item_def[abs_def])
qed (simp_all add: ascii_def)

lemma non_ascii_kept: "127 < c \<Longrightarrow> escape_char c = [c]"
  by (simp add: escape_char_def)

text \<open>
  C7. For every event of a blob that the loop writes, the line written for it is its
  serialised JSON followed by a newline: it holds no other newline, the characters
  beyond ASCII stand in it as they are, and read back with \<open>json.loads\<close> the line
  gives the event itself.
\<close>

theorem written_line_parses_back:
  assumes "write_events f b x w st evs = (w', Inr st')"
      and "list_all wf_json evs"
  shows "written w' = written w @ map (\<lambda>e. (f, json_dumps e @ [10])) evs
       \<and> (\<forall>e\<in>set evs. 10 \<notin> set (json_dumps e)
                        \<and> json_loads (json_dumps e @ [10]) = Some e)
       \<and> (\<forall>c. 127 < c \<longrightarrow> escape_char c = [c])"
proof -
  from write_events_Inr[OF assms(1)] have wr: "list_all (writable w) evs" by simp
  from write_events_ok[OF wr, of f b x st] assms(1)
  have "written w' = written w @ map (\<lambda>e. (f, json_dumps e @ [10])) evs" by auto
  moreover have "\<forall>e\<in>set evs. 10 \<notin> set (json_dumps e)
                        \<and> json_loads (json_dumps e @ [10]) = Some e"
    using assms(2) by (auto simp: list_all_iff dumps_no_newline json_loads_line)
  ultimately show ?thesis by (simp add: non_ascii_kept)
qed

theorem written_line_parses_back_witness:
  "written (fst (write_events (ascii ''out_0.json'') (ascii ''out'') (ascii ''.json'') no_world
       (start_state (ascii ''out'') (ascii ''.json'')) [accented_event, small_event]))
     = [(ascii ''out_0.json'', [123, 34, 97, 34, 58, 32, 34, 233, 34, 125, 10]),
        (ascii ''out_0.json'', [123, 125, 10])]
   \<and> json_loads [123, 34, 97, 34, 58, 32, 34, 233, 34, 125, 10] = Some accented_event
   \<and> json_loads [123, 125, 10] = Some small_event
   \<and> escape_char 233 = [233]"
proof -
  have wr: "list_all (writable no_world) [accented_event, small_event]"
    by (simp add: writable_accented writable_small)
  have h: "write_events (ascii ''out_0.json'') (ascii ''out'') (ascii ''.json'') no_world
       (start_state (ascii ''out'') (ascii ''.json'')) [accented_event, small_event]
     = (no_world\<lparr>written := written no_world
                    @ map (\<lambda>e. (ascii ''out_0.json'', json_dumps e @ [10]))
                        [accented_event, small_event]\<rparr>,
        Inr (foldl (account (ascii ''out'') (ascii ''.json''))
               (start_state (ascii ''out'') (ascii ''.json'')) [accented_event, small_event]))"
    by (rule write_events_ok[OF wr])
  have wf: "list_all wf_json [accented_event, small_event]"
    by (simp add: accented_event_def small_event_def)
  have wrt: "written (fst (write_events (ascii ''out_0.json'') (ascii ''out'') (ascii ''.json'')
       no_world (start_state (ascii ''out'') (ascii ''.json'')) [accented_event, small_event]))
     = [(ascii ''out_0.json'', [123, 34, 97, 34, 58, 32, 34, 233, 34, 125, 10]),
        (ascii ''out_0.json'', [123, 125, 10])]"
    by (subst h) (simp add: dumps_accented dumps_small)
  from written_line_parses_back[OF h wf]
  have "json_loads (json_dumps accented_event @ [10]) = Some accented_event"
    and "json_loads (json_dumps small_event @ [10]) = Some small_event"
    and "escape_char 233 = [233]"
    by simp_all
  then have "json_loads [123, 34, 97, 34, 58, 32, 34, 233, 34, 125, 10] = Some accented_event"
    and "json_loads [123, 125, 10] = Some small_event"
    and "escape_char 233 = [233]"
    by (simp_all add: dumps_accented dumps_small)
  with wrt show ?thesis by (intro conjI)
qed

section \<open>Retries\<close>

lemma mounted_session:
  "mounted get_session_with_retries
     = [(ascii ''https://'', Retry 5 1 [429, 500, 502, 503, 504]),
        (ascii ''http://'', Retry 0 0 [])]"
  by (simp add: get_session_with_retries_def mount_def Session_def ascii_def Let_def)

lemma adapter_token_url:
  "get_adapter get_session_with_retries token_url = Some (Retry 5 1 [429, 500, 502, 503, 504])"
  by (simp add: get_adapter_def mounted_session token_url_def ascii_def py_lower_def)

lemma adapter_listing_url:
  "get_adapter get_session_with_retries listing_url
     = Some (Retry 5 1 [429, 500, 502, 503, 504])"
  by (simp add: get_adapter_def mounted_session listing_url_def ascii_def py_lower_def)

lemma urlopen_not_allowed:
  "m \<notin> set (allowed_methods pol) \<Longrightarrow> urlopen pol m n (Served r # ws) = (Answer r, ws)"
  by (simp add: is_retry_def)

lemma urlopen_retried:
  "list_all (\<lambda>r. is_retry pol m (status_code r)) bad \<Longrightarrow> \<not> is_retry pol m (status_code good)
   \<Longrightarrow> length bad \<le> n
   \<Longrightarrow> urlopen pol m n (map Served bad @ Served good # ws) = (Answer good, ws)"
  by (induction bad arbitrary: n) auto

lemma urlopen_exhausted:
  "list_all (\<lambda>r. is_retry pol m (status_code r)) bad \<Longrightarrow> length bad = Suc n
   \<Longrightarrow> urlopen pol m n (map Served bad @ ws) = (NoAnswer, ws)"
  by (induction bad arbitrary: n) auto

lemma send_token_post:
  "session_send get_session_with_retries POST token_url [Served unavailable, Served token_answer]
     = (Answer unavailable, [Served token_answer])"
  by (simp add: session_send_def adapter_token_url Retry_def DEFAULT_ALLOWED_METHODS_def
        is_retry_def)

lemma send_listing_get:
  "session_send get_session_with_retries GET listing_url [Served unavailable, Served empty_listing]
     = (Answer empty_listing, [])"
  by (simp add: session_send_def adapter_listing_url Retry_def DEFAULT_ALLOWED_METHODS_def
        is_retry_def unavailable_def empty_listing_def)

text \<open>
  C4. The retry policy applies to every request of the session, the token POST among
  them. It does not reach the POST: the request of \<open>get_access_token\<close> is a POST to an
  \<open>https://\<close> URL, served by the adapter with the policy of line 23, and when the token
  endpoint answers 503 and would answer 200 with a token next, the 503 is handed back
  after the one attempt and the call fails with it. The listing GET of \<open>collect_logs\<close>,
  in the same situation, is sent again and the run succeeds.
\<close>

theorem token_post_is_not_retried:
  "map (\<lambda>q. (req_method q, req_url q))
       (sent (fst (token_of (no_world\<lparr>replies :=
          [fst (session_send get_session_with_retries POST token_url
                  [Served unavailable, Served token_answer])]\<rparr>))))
     = [(POST, token_url)]
   \<and> get_adapter get_session_with_retries token_url
       = Some (Retry 5 1 [429, 500, 502, 503, 504])
   \<and> session_send get_session_with_retries POST token_url
         [Served unavailable, Served token_answer]
       = (Answer unavailable, [Served token_answer])
   \<and> snd (token_of (no_world\<lparr>replies :=
          [fst (session_send get_session_with_retries POST token_url
                  [Served unavailable, Served token_answer])]\<rparr>))
       = Inl (HTTPError 503)
   \<and> session_send get_session_with_retries GET listing_url
         [Served unavailable, Served empty_listing]
       = (Answer empty_listing, [])
   \<and> map (\<lambda>q. (req_method q, req_url q))
       (sent (fst (collect_out (no_world\<lparr>replies :=
          [fst (session_send get_session_with_retries GET listing_url
                  [Served unavailable, Served empty_listing])]\<rparr>))))
     = [(GET, listing_url)]
   \<and> snd (collect_out (no_world\<lparr>replies :=
          [fst (session_send get_session_with_retries GET listing_url
                  [Served unavailable, Served empty_listing])]\<rparr>))
       = Inr 0"
proof -
  have p: "fst (session_send get_session_with_retries POST token_url
                  [Served unavailable, Served token_answer]) = Answer unavailable"
    by (simp add: send_token_post)
  have g: "fst (session_send get_session_with_retries GET listing_url
                  [Served unavailable, Served empty_listing]) = Answer empty_listing"
    by (simp add: send_listing_get)
  have t1: "map (\<lambda>q. (req_method q, req_url q))
              (sent (fst (token_of (no_world\<lparr>replies := [Answer unavailable]\<rparr>))))
            = [(POST, token_url)]"
    by (simp add: token_of_def get_access_token_def session_request_def no_world_def Let_def
          raise_for_status_def unavailable_def token_url_def)
  have t2: "snd (token_of (no_world\<lparr>replies := [Answer unavailable]\<rparr>)) = Inl (HTTPError 503)"
    by (simp add: token_of_def get_access_token_def session_request_def no_world_def Let_def
          raise_for_status_def unavailable_def)
  have c1: "map (\<lambda>q. (req_method q, req_url q))
              (sent (fst (collect_out (no_world\<lparr>replies := [Answer empty_listing]\<rparr>))))
            = [(GET, listing_url)]"
    by (simp add: collect_out_def collect_logs_def session_request_def no_world_def Let_def
          raise_for_status_def response_json_def empty_listing_def listing_url_def)
  have c2: "snd (collect_out (no_world\<lparr>replies := [Answer empty_listing]\<rparr>)) = Inr 0"
    by (simp add: collect_out_def collect_logs_def session_request_def no_world_def Let_def
          raise_for_status_def response_json_def empty_listing_def)
  show ?thesis
    unfolding p g
    by (intro conjI t1 t2 c1 c2 adapter_token_url send_token_post send_listing_get)
qed

end
